theory Spec2Isabelle
  imports Complex_Main "HOL-Library.List_Lexorder" "HOL-Library.Char_ord"
begin

section \<open>The kitchen system of \<^verbatim>\<open>src/src/kitchen_system.py\<close>\<close>

text \<open>
  The embedding follows the Python module function by function.
  \<^item> Timestamps are Python floats; they are idealised as \<^typ>\<open>real\<close> (no rounding).
  \<^item> \<^verbatim>\<open>time.time()\<close> is an input: every call site of the clock is a parameter of the
    function that contains it, named after the call site.
  \<^item> A \<^verbatim>\<open>FoodOrder\<close> is a mutable object that the zone lists and the \<^verbatim>\<open>orders\<close>
    dictionary share. Objects live in an explicit store (\<open>heap\<close>, a list indexed by
    reference); zones and the dictionary hold references.
  \<^item> An exception is a value of \<open>py_error\<close>; a function that can raise returns the
    state reached at the raise together with \<open>Inl\<close> of the error.
  \<^item> The lock serialises the public operations, so each is one atomic state
    transformer. Console printing is left out.
\<close>

subsection \<open>Data\<close>

datatype Temperature = HOT | COLD | ROOM

fun temperature_value :: "Temperature \<Rightarrow> string" where
  "temperature_value HOT = ''hot''"
| "temperature_value COLD = ''cold''"
| "temperature_value ROOM = ''room''"

datatype ActionType = PLACE | MOVE | PICKUP | DISCARD

datatype py_error = ZeroDivisionError | ValueError

record FoodOrder =
  id' :: string
  name :: string
  temperature :: Temperature
  freshness :: int
  placed_at :: real
  stored_at :: real
  storage_location :: string

record KitchenAction =
  timestamp :: real
  order_id :: string
  action_type :: ActionType
  target :: string
  details :: string

record Stats =
  orders_placed :: int
  orders_picked_up :: int
  orders_discarded :: int
  orders_moved :: int

type_synonym ref = nat

record KitchenSystem =
  cooler :: "ref list"
  heater :: "ref list"
  shelf :: "ref list"
  orders :: "string \<rightharpoonup> ref"
  actions :: "KitchenAction list"
  stats :: Stats
  heap :: "FoodOrder list"

definition KitchenSystem_init :: KitchenSystem where
  "KitchenSystem_init =
     \<lparr>cooler = [], heater = [], shelf = [], orders = Map.empty, actions = [],
      stats = \<lparr>orders_placed = 0, orders_picked_up = 0, orders_discarded = 0, orders_moved = 0\<rparr>,
      heap = []\<rparr>"

subsection \<open>\<^verbatim>\<open>FoodOrder.is_fresh\<close>\<close>

definition is_fresh :: "FoodOrder \<Rightarrow> real \<Rightarrow> bool" where
  "is_fresh order current_time =
     (let elapsed_time = current_time - stored_at order;
          ideal_freshness = freshness order
      in if storage_location order = temperature_value (temperature order)
         then elapsed_time < real_of_int ideal_freshness
         else elapsed_time < real_of_int ideal_freshness / 2)"

subsection \<open>Helpers: the ledger, object fields, list operations\<close>

definition log_action ::
  "KitchenSystem \<Rightarrow> real \<Rightarrow> string \<Rightarrow> ActionType \<Rightarrow> string \<Rightarrow> string \<Rightarrow> KitchenSystem" where
  "log_action s ts oid atype tgt det =
     s\<lparr>actions := actions s @
          [\<lparr>timestamp = ts, order_id = oid, action_type = atype, target = tgt, details = det\<rparr>]\<rparr>"

text \<open>\<^verbatim>\<open>order.storage_location = loc\<close> on the object behind reference \<open>r\<close>.\<close>

definition set_storage_location :: "KitchenSystem \<Rightarrow> ref \<Rightarrow> string \<Rightarrow> KitchenSystem" where
  "set_storage_location s r loc = s\<lparr>heap := (heap s)[r := (heap s ! r)\<lparr>storage_location := loc\<rparr>]\<rparr>"

text \<open>\<^verbatim>\<open>xs.pop(i)\<close> for an index in range: the list without position \<open>i\<close>.\<close>

definition pop :: "nat \<Rightarrow> 'a list \<Rightarrow> 'a list" where
  "pop i xs = take i xs @ drop (Suc i) xs"

text \<open>
  \<^verbatim>\<open>for i, order in enumerate(xs): if P(order): ... return True\<close>: the index at which
  the loop body fires, counted from \<open>i\<close>.
\<close>

fun first_index :: "('a \<Rightarrow> bool) \<Rightarrow> 'a list \<Rightarrow> nat \<Rightarrow> nat option" where
  "first_index P [] i = None"
| "first_index P (x # xs) i = (if P x then Some i else first_index P xs (Suc i))"

text \<open>Python's \<^verbatim>\<open>int(x)\<close> on a float truncates towards zero.\<close>

definition py_int :: "real \<Rightarrow> int" where
  "py_int x = (if 0 \<le> x then \<lfloor>x\<rfloor> else \<lceil>x\<rceil>)"

text \<open>
  \<^verbatim>\<open>xs.remove(order)\<close>: drops the first element that is the object or equals it
  (dataclass equality compares all fields); raises \<^verbatim>\<open>ValueError\<close> when there is none.
\<close>

fun list_remove :: "FoodOrder list \<Rightarrow> ref \<Rightarrow> ref list \<Rightarrow> ref list option" where
  "list_remove h r [] = None"
| "list_remove h r (x # xs) =
     (if x = r \<or> h ! x = h ! r then Some xs
      else (case list_remove h r xs of None \<Rightarrow> None | Some ys \<Rightarrow> Some (x # ys)))"

subsection \<open>Placement\<close>

definition try_store_at_ideal_temperature :: "KitchenSystem \<Rightarrow> ref \<Rightarrow> KitchenSystem \<times> bool" where
  "try_store_at_ideal_temperature s r =
     (let order = heap s ! r in
      if temperature order = COLD \<and> length (cooler s) < 6
      then (set_storage_location (s\<lparr>cooler := cooler s @ [r]\<rparr>) r ''cooler'', True)
      else if temperature order = HOT \<and> length (heater s) < 6
      then (set_storage_location (s\<lparr>heater := heater s @ [r]\<rparr>) r ''heater'', True)
      else if temperature order = ROOM \<and> length (shelf s) < 12
      then (set_storage_location (s\<lparr>shelf := shelf s @ [r]\<rparr>) r ''shelf'', True)
      else (s, False))"

definition bump_moved :: "KitchenSystem \<Rightarrow> KitchenSystem" where
  "bump_moved s = s\<lparr>stats := (stats s)\<lparr>orders_moved := orders_moved (stats s) + 1\<rparr>\<rparr>"

definition bump_discarded :: "KitchenSystem \<Rightarrow> KitchenSystem" where
  "bump_discarded s = s\<lparr>stats := (stats s)\<lparr>orders_discarded := orders_discarded (stats s) + 1\<rparr>\<rparr>"

definition bump_picked_up :: "KitchenSystem \<Rightarrow> KitchenSystem" where
  "bump_picked_up s = s\<lparr>stats := (stats s)\<lparr>orders_picked_up := orders_picked_up (stats s) + 1\<rparr>\<rparr>"

definition bump_placed :: "KitchenSystem \<Rightarrow> KitchenSystem" where
  "bump_placed s = s\<lparr>stats := (stats s)\<lparr>orders_placed := orders_placed (stats s) + 1\<rparr>\<rparr>"

text \<open>\<open>t_move\<close> is the clock as read inside the loop body (line 189).\<close>

definition move_from_shelf_to_cooler :: "KitchenSystem \<Rightarrow> real \<Rightarrow> KitchenSystem \<times> bool" where
  "move_from_shelf_to_cooler s t_move =
     (case first_index (\<lambda>r. temperature (heap s ! r) = COLD \<and> length (cooler s) < 6) (shelf s) 0 of
        None \<Rightarrow> (s, False)
      | Some i \<Rightarrow>
          (let moved_order = shelf s ! i;
               s1 = s\<lparr>shelf := pop i (shelf s)\<rparr>;
               s2 = s1\<lparr>cooler := cooler s1 @ [moved_order]\<rparr>;
               s3 = set_storage_location s2 moved_order ''cooler'';
               s4 = log_action s3 t_move (id' (heap s3 ! moved_order)) MOVE ''cooler''
                      (''Moved '' @ name (heap s3 ! moved_order) @ '' from shelf to cooler'')
           in (bump_moved s4, True)))"

text \<open>\<open>t_move\<close> is the clock as read inside the loop body (line 204).\<close>

definition move_from_shelf_to_heater :: "KitchenSystem \<Rightarrow> real \<Rightarrow> KitchenSystem \<times> bool" where
  "move_from_shelf_to_heater s t_move =
     (case first_index (\<lambda>r. temperature (heap s ! r) = HOT \<and> length (heater s) < 6) (shelf s) 0 of
        None \<Rightarrow> (s, False)
      | Some i \<Rightarrow>
          (let moved_order = shelf s ! i;
               s1 = s\<lparr>shelf := pop i (shelf s)\<rparr>;
               s2 = s1\<lparr>heater := heater s1 @ [moved_order]\<rparr>;
               s3 = set_storage_location s2 moved_order ''heater'';
               s4 = log_action s3 t_move (id' (heap s3 ! moved_order)) MOVE ''heater''
                      (''Moved '' @ name (heap s3 ! moved_order) @ '' from shelf to heater'')
           in (bump_moved s4, True)))"

definition place_on_shelf :: "KitchenSystem \<Rightarrow> ref \<Rightarrow> KitchenSystem" where
  "place_on_shelf s r = set_storage_location (s\<lparr>shelf := shelf s @ [r]\<rparr>) r ''shelf''"

definition try_make_room_and_place :: "KitchenSystem \<Rightarrow> real \<Rightarrow> ref \<Rightarrow> KitchenSystem \<times> bool" where
  "try_make_room_and_place s t_move r =
     (let order = heap s ! r in
      if temperature order = COLD \<and> length (cooler s) < 6
      then (case move_from_shelf_to_cooler s t_move of
              (s1, moved) \<Rightarrow>
                if moved \<and> length (shelf s1) < 12 then (place_on_shelf s1 r, True) else (s1, False))
      else if temperature order = HOT \<and> length (heater s) < 6
      then (case move_from_shelf_to_heater s t_move of
              (s1, moved) \<Rightarrow>
                if moved \<and> length (shelf s1) < 12 then (place_on_shelf s1 r, True) else (s1, False))
      else if length (shelf s) < 12
      then (place_on_shelf s r, True)
      else (s, False))"

subsection \<open>Choosing a shelf order to discard\<close>

text \<open>
  One pass of the loop body of \<^verbatim>\<open>_choose_order_to_discard\<close>: the score of one shelf
  order. The division raises \<^verbatim>\<open>ZeroDivisionError\<close> when the order's freshness is 0.
\<close>

definition discard_score :: "FoodOrder \<Rightarrow> real \<Rightarrow> py_error + int" where
  "discard_score order current_time =
     (let score0 = (if \<not> is_fresh order current_time then 1000 else 0);
          score1 = score0 +
                   (if storage_location order \<noteq> temperature_value (temperature order) then 500 else 0);
          elapsed_time = current_time - stored_at order;
          ideal_freshness = freshness order
      in if ideal_freshness = 0 then Inl ZeroDivisionError
         else (let time_ratio =
                     (if storage_location order = temperature_value (temperature order)
                      then elapsed_time / real_of_int ideal_freshness
                      else (elapsed_time * 2) / real_of_int ideal_freshness)
               in Inr (score1 + py_int (time_ratio * 100))))"

text \<open>
  The loop itself, over the rest of the shelf from index \<open>i\<close>; \<open>best_score = None\<close> stands
  for \<^verbatim>\<open>float('-inf')\<close>, below every score.
\<close>

fun choose_loop ::
  "FoodOrder list \<Rightarrow> real \<Rightarrow> ref list \<Rightarrow> nat \<Rightarrow> nat option \<Rightarrow> int option \<Rightarrow> py_error + nat option" where
  "choose_loop h current_time [] i best_index best_score = Inr best_index"
| "choose_loop h current_time (r # rs) i best_index best_score =
     (case discard_score (h ! r) current_time of
        Inl e \<Rightarrow> Inl e
      | Inr score \<Rightarrow>
          if (case best_score of None \<Rightarrow> True | Some b \<Rightarrow> score > b)
          then choose_loop h current_time rs (Suc i) (Some i) (Some score)
          else choose_loop h current_time rs (Suc i) best_index best_score)"

definition choose_order_to_discard :: "KitchenSystem \<Rightarrow> real \<Rightarrow> py_error + nat option" where
  "choose_order_to_discard s current_time = choose_loop (heap s) current_time (shelf s) 0 None None"

text \<open>\<open>t_choose\<close> is the clock read of line 240, \<open>t_discard\<close> the one of line 218.\<close>

definition discard_and_place ::
  "KitchenSystem \<Rightarrow> real \<Rightarrow> real \<Rightarrow> ref \<Rightarrow> KitchenSystem \<times> (py_error + bool)" where
  "discard_and_place s t_choose t_discard r =
     (if length (shelf s) \<ge> 12
      then (case choose_order_to_discard s t_choose of
              Inl e \<Rightarrow> (s, Inl e)
            | Inr None \<Rightarrow> (s, Inr False)
            | Inr (Some discard_index) \<Rightarrow>
                (let discarded_order = shelf s ! discard_index;
                     s1 = s\<lparr>shelf := pop discard_index (shelf s)\<rparr>;
                     s2 = log_action s1 t_discard (id' (heap s1 ! discarded_order)) DISCARD ''shelf''
                            (''Discarded '' @ name (heap s1 ! discarded_order) @ '' to make room'');
                     s3 = bump_discarded s2
                 in (place_on_shelf s3 r, Inr True)))
      else (s, Inr False))"

subsection \<open>\<^verbatim>\<open>place_order\<close>\<close>

text \<open>The three identical tails of \<^verbatim>\<open>place_order\<close>: log PLACE, track the order, count it.\<close>

definition admit :: "KitchenSystem \<Rightarrow> real \<Rightarrow> string \<Rightarrow> ref \<Rightarrow> string \<Rightarrow> KitchenSystem" where
  "admit s current_time oid r det =
     (let s1 = log_action s current_time oid PLACE (storage_location (heap s ! r)) det;
          s2 = s1\<lparr>orders := (orders s1)(oid \<mapsto> r)\<rparr>
      in bump_placed s2)"

text \<open>
  \<open>current_time\<close> is the clock read on entry (line 99); \<open>t_move\<close>, \<open>t_choose\<close> and
  \<open>t_discard\<close> are the later reads, each used only if its call site is reached. The new
  object is allocated at the next free reference.
\<close>

definition place_order ::
  "KitchenSystem \<Rightarrow> real \<Rightarrow> real \<Rightarrow> real \<Rightarrow> real \<Rightarrow> string \<Rightarrow> string \<Rightarrow> Temperature \<Rightarrow> int
     \<Rightarrow> KitchenSystem \<times> (py_error + bool)" where
  "place_order s current_time t_move t_choose t_discard oid nm temp fresh =
     (let order = \<lparr>id' = oid, name = nm, temperature = temp, freshness = fresh,
                   placed_at = current_time, stored_at = current_time, storage_location = ''''\<rparr>;
          r = length (heap s);
          s0 = s\<lparr>heap := heap s @ [order]\<rparr>
      in case try_store_at_ideal_temperature s0 r of
           (s1, stored) \<Rightarrow>
             if stored
             then (admit s1 current_time oid r (''Stored '' @ nm @ '' at ideal temperature''), Inr True)
             else (case try_make_room_and_place s1 t_move r of
                     (s2, placed) \<Rightarrow>
                       if placed
                       then (admit s2 current_time oid r (''Stored '' @ nm @ '' after making room''),
                             Inr True)
                       else (case discard_and_place s2 t_choose t_discard r of
                               (s3, Inl e) \<Rightarrow> (s3, Inl e)
                             | (s3, Inr discarded) \<Rightarrow>
                                 if discarded
                                 then (admit s3 current_time oid r
                                         (''Stored '' @ nm @ '' after discarding old order''), Inr True)
                                 else (s3, Inr False))))"

subsection \<open>\<^verbatim>\<open>pickup_order\<close>\<close>

definition remove_order_from_storage :: "KitchenSystem \<Rightarrow> FoodOrder \<Rightarrow> KitchenSystem" where
  "remove_order_from_storage s order =
     (if storage_location order = ''cooler''
      then s\<lparr>cooler := filter (\<lambda>x. id' (heap s ! x) \<noteq> id' order) (cooler s)\<rparr>
      else if storage_location order = ''heater''
      then s\<lparr>heater := filter (\<lambda>x. id' (heap s ! x) \<noteq> id' order) (heater s)\<rparr>
      else if storage_location order = ''shelf''
      then s\<lparr>shelf := filter (\<lambda>x. id' (heap s ! x) \<noteq> id' order) (shelf s)\<rparr>
      else s)"

text \<open>The result is the order object as it is at the return, or \<open>None\<close>.\<close>

definition pickup_order :: "KitchenSystem \<Rightarrow> real \<Rightarrow> string \<Rightarrow> KitchenSystem \<times> FoodOrder option" where
  "pickup_order s current_time oid =
     (case orders s oid of
        None \<Rightarrow> (s, None)
      | Some r \<Rightarrow>
          (let order = heap s ! r in
           if \<not> is_fresh order current_time
           then (let s1 = remove_order_from_storage s order;
                     s2 = log_action s1 current_time oid DISCARD (storage_location order)
                            (''Discarded expired '' @ name order);
                     s3 = bump_discarded s2
                 in (s3\<lparr>orders := (orders s3)(oid := None)\<rparr>, None))
           else (let s1 = remove_order_from_storage s order;
                     s2 = log_action s1 current_time oid PICKUP (storage_location order)
                            (''Picked up '' @ name order);
                     s3 = bump_picked_up s2
                 in (s3\<lparr>orders := (orders s3)(oid := None)\<rparr>, Some order))))"

subsection \<open>\<^verbatim>\<open>cleanup_expired_orders\<close>\<close>

text \<open>
  The three loops of \<^verbatim>\<open>cleanup_expired_orders\<close> differ only in the zone; \<open>get\<close> and
  \<open>put\<close> read and write that zone's list, \<open>tgt\<close> is its name.
\<close>

fun discard_expired ::
  "(KitchenSystem \<Rightarrow> ref list) \<Rightarrow> (ref list \<Rightarrow> KitchenSystem \<Rightarrow> KitchenSystem) \<Rightarrow> string \<Rightarrow> real
     \<Rightarrow> ref list \<Rightarrow> KitchenSystem \<Rightarrow> KitchenSystem \<times> (py_error + unit)" where
  "discard_expired get put tgt current_time [] s = (s, Inr ())"
| "discard_expired get put tgt current_time (r # rs) s =
     (case list_remove (heap s) r (get s) of
        None \<Rightarrow> (s, Inl ValueError)
      | Some zs \<Rightarrow>
          (let order = heap s ! r;
               s1 = put zs s;
               s2 = log_action s1 current_time (id' order) DISCARD tgt
                      (''Auto-discarded expired '' @ name order);
               s3 = bump_discarded s2;
               s4 = (if id' order \<in> dom (orders s3)
                     then s3\<lparr>orders := (orders s3)(id' order := None)\<rparr> else s3)
           in discard_expired get put tgt current_time rs s4))"

definition expired_in :: "KitchenSystem \<Rightarrow> real \<Rightarrow> ref list \<Rightarrow> ref list" where
  "expired_in s current_time zone = filter (\<lambda>x. \<not> is_fresh (heap s ! x) current_time) zone"

definition cleanup_expired_orders :: "KitchenSystem \<Rightarrow> real \<Rightarrow> KitchenSystem \<times> (py_error + unit)" where
  "cleanup_expired_orders s current_time =
     (case discard_expired cooler (\<lambda>zs s. s\<lparr>cooler := zs\<rparr>) ''cooler'' current_time
             (expired_in s current_time (cooler s)) s of
        (s1, Inl e) \<Rightarrow> (s1, Inl e)
      | (s1, Inr _) \<Rightarrow>
          (case discard_expired heater (\<lambda>zs s. s\<lparr>heater := zs\<rparr>) ''heater'' current_time
                  (expired_in s1 current_time (heater s1)) s1 of
             (s2, Inl e) \<Rightarrow> (s2, Inl e)
           | (s2, Inr _) \<Rightarrow>
               discard_expired shelf (\<lambda>zs s. s\<lparr>shelf := zs\<rparr>) ''shelf'' current_time
                 (expired_in s2 current_time (shelf s2)) s2))"

subsection \<open>Executions\<close>

text \<open>
  The states an execution can be in between two operations: the initial state, closed
  under the three public operations with any arguments and any clock reads. An
  operation that raised leaves the state it had reached.
\<close>

inductive reachable :: "KitchenSystem \<Rightarrow> bool" where
  init: "reachable KitchenSystem_init"
| place: "reachable s \<Longrightarrow>
          reachable (fst (place_order s current_time t_move t_choose t_discard oid nm temp fresh))"
| pickup: "reachable s \<Longrightarrow> reachable (fst (pickup_order s current_time oid))"
| cleanup: "reachable s \<Longrightarrow> reachable (fst (cleanup_expired_orders s current_time))"

text \<open>
  A scenario driver, as the harness's arrival loop with an unbounded rate: all orders of
  the list are placed, one after the other, with the clock standing at \<open>t\<close>.
\<close>

fun place_all :: "KitchenSystem \<Rightarrow> real \<Rightarrow> (string \<times> string \<times> Temperature \<times> int) list \<Rightarrow> KitchenSystem" where
  "place_all s t [] = s"
| "place_all s t ((oid, nm, temp, fresh) # rest) =
     place_all (fst (place_order s t t t t oid nm temp fresh)) t rest"

subsection \<open>Invariants of the reachable states\<close>

definition zones :: "KitchenSystem \<Rightarrow> ref list" where
  "zones s = cooler s @ heater s @ shelf s"

definition wf_zones :: "KitchenSystem \<Rightarrow> bool" where
  "wf_zones s \<longleftrightarrow>
     length (cooler s) \<le> 6 \<and> length (heater s) \<le> 6 \<and> length (shelf s) \<le> 12 \<and>
     distinct (zones s) \<and> (\<forall>r\<in>set (zones s). r < length (heap s))"

definition wf_locations :: "KitchenSystem \<Rightarrow> bool" where
  "wf_locations s \<longleftrightarrow>
     (\<forall>r\<in>set (cooler s). storage_location (heap s ! r) = ''cooler'') \<and>
     (\<forall>r\<in>set (heater s). storage_location (heap s ! r) = ''heater'') \<and>
     (\<forall>r\<in>set (shelf s). storage_location (heap s ! r) = ''shelf'') \<and>
     (\<forall>r\<in>ran (orders s). r < length (heap s) \<and>
        (storage_location (heap s ! r) = ''cooler'' \<or> storage_location (heap s ! r) = ''heater'' \<or>
         storage_location (heap s ! r) = ''shelf''))"

subsection \<open>The freshness model of the specification\<close>

text \<open>
  These follow the words of the specification, not the code: a zone matches an ideal
  temperature (cooler: COLD, heater: HOT, shelf: ROOM); the remaining life of an order is
  its budget minus its age in a matching zone, and its budget minus twice its age
  otherwise; an order is fresh iff its remaining life is positive.
\<close>

definition spec_in_ideal_zone :: "FoodOrder \<Rightarrow> bool" where
  "spec_in_ideal_zone order \<longleftrightarrow>
     storage_location order = ''heater'' \<and> temperature order = HOT \<or>
     storage_location order = ''cooler'' \<and> temperature order = COLD \<or>
     storage_location order = ''shelf'' \<and> temperature order = ROOM"

definition spec_life_remaining :: "FoodOrder \<Rightarrow> real \<Rightarrow> real" where
  "spec_life_remaining order t =
     (if spec_in_ideal_zone order
      then real_of_int (freshness order) - (t - stored_at order)
      else real_of_int (freshness order) - 2 * (t - stored_at order))"

definition spec_fresh :: "FoodOrder \<Rightarrow> real \<Rightarrow> bool" where
  "spec_fresh order t \<longleftrightarrow> spec_life_remaining order t > 0"

subsection \<open>Scenarios\<close>

text \<open>The action kinds the ledger holds for one order id, in ledger order.\<close>

definition ledger_of :: "string \<Rightarrow> KitchenSystem \<Rightarrow> ActionType list" where
  "ledger_of oid s = map action_type (filter (\<lambda>a. order_id a = oid) (actions s))"

text \<open>
  Twelve room-temperature orders fill the shelf at time 0. A thirteenth arrives while the
  clock advances from 1 to 4 during the call; it displaces a shelf order. The displaced
  order's courier then arrives at time 5.
\<close>

definition twelve_room_orders :: "(string \<times> string \<times> Temperature \<times> int) list" where
  "twelve_room_orders =
     [(''r01'', ''Bread'', ROOM, 100), (''r02'', ''Bread'', ROOM, 100), (''r03'', ''Bread'', ROOM, 100),
      (''r04'', ''Bread'', ROOM, 100), (''r05'', ''Bread'', ROOM, 100), (''r06'', ''Bread'', ROOM, 100),
      (''r07'', ''Bread'', ROOM, 100), (''r08'', ''Bread'', ROOM, 100), (''r09'', ''Bread'', ROOM, 100),
      (''r10'', ''Bread'', ROOM, 100), (''r11'', ''Bread'', ROOM, 100), (''r12'', ''Bread'', ROOM, 100)]"

definition shelf_full :: KitchenSystem where
  "shelf_full = place_all KitchenSystem_init 0 twelve_room_orders"

definition after_thirteenth :: KitchenSystem where
  "after_thirteenth = fst (place_order shelf_full 1 2 3 4 ''r13'' ''Bread'' ROOM 100)"

definition late_pickup :: "KitchenSystem \<times> FoodOrder option" where
  "late_pickup = pickup_order after_thirteenth 5 ''r01''"

text \<open>One hot order with a budget of 10 seconds, placed at time 0 into the empty kitchen.\<close>

definition one_hot :: KitchenSystem where
  "one_hot = fst (place_order KitchenSystem_init 0 0 0 0 ''o1'' ''Pizza'' HOT 10)"

text \<open>
  As \<open>shelf_full\<close>, but the first shelf order has a budget of 0 seconds.
\<close>

definition shelf_full_stale :: KitchenSystem where
  "shelf_full_stale =
     place_all KitchenSystem_init 0 ((''z01'', ''Stale'', ROOM, 0) # tl twelve_room_orders)"

text \<open>
  Scenario S4 of the specification: six hot orders fill the heater, a seventh goes to the
  shelf, one heater order is picked up, then an eighth hot order is placed. All at time 0.
\<close>

definition seven_hot_orders :: "(string \<times> string \<times> Temperature \<times> int) list" where
  "seven_hot_orders =
     [(''h1'', ''Soup'', HOT, 300), (''h2'', ''Soup'', HOT, 300), (''h3'', ''Soup'', HOT, 300),
      (''h4'', ''Soup'', HOT, 300), (''h5'', ''Soup'', HOT, 300), (''h6'', ''Soup'', HOT, 300),
      (''h7'', ''Soup'', HOT, 300)]"

definition hot_overflow :: KitchenSystem where
  "hot_overflow = place_all KitchenSystem_init 0 seven_hot_orders"

definition heater_freed :: KitchenSystem where
  "heater_freed = fst (pickup_order hot_overflow 0 ''h1'')"

definition after_eighth_hot :: KitchenSystem where
  "after_eighth_hot = fst (place_order heater_freed 0 0 0 0 ''h8'' ''Soup'' HOT 300)"

text \<open>
  Seven cold orders of budget 10 at time 0: six fill the cooler, \<open>c7\<close> goes to the
  shelf; then \<open>c1\<close> is picked up, which frees a cooler slot. Six hot orders then fill
  the heater, and a seventh hot order arrives.
\<close>

definition seven_cold_orders :: "(string \<times> string \<times> Temperature \<times> int) list" where
  "seven_cold_orders =
     [(''c1'', ''Salad'', COLD, 10), (''c2'', ''Salad'', COLD, 10), (''c3'', ''Salad'', COLD, 10),
      (''c4'', ''Salad'', COLD, 10), (''c5'', ''Salad'', COLD, 10), (''c6'', ''Salad'', COLD, 10),
      (''c7'', ''Salad'', COLD, 10)]"

definition cooler_freed :: KitchenSystem where
  "cooler_freed = fst (pickup_order (place_all KitchenSystem_init 0 seven_cold_orders) 0 ''c1'')"

definition heater_filled :: KitchenSystem where
  "heater_filled = place_all cooler_freed 0 (butlast seven_hot_orders)"

definition after_seventh_hot :: KitchenSystem where
  "after_seventh_hot = fst (place_order heater_filled 0 0 0 0 ''h7'' ''Soup'' HOT 300)"

text \<open>
  In \<open>cooler_freed\<close> the relocation is applied directly, with the clock at 2.
\<close>

definition after_move :: KitchenSystem where
  "after_move = fst (move_from_shelf_to_cooler cooler_freed 2)"

subsection \<open>Names for the first steps of \<^verbatim>\<open>place_order\<close>\<close>

text \<open>The object \<^verbatim>\<open>place_order\<close> creates, and the store with that object added.\<close>

definition new_order :: "string \<Rightarrow> string \<Rightarrow> Temperature \<Rightarrow> int \<Rightarrow> real \<Rightarrow> FoodOrder" where
  "new_order oid nm temp fresh t =
     \<lparr>id' = oid, name = nm, temperature = temp, freshness = fresh,
      placed_at = t, stored_at = t, storage_location = ''''\<rparr>"

definition alloc :: "KitchenSystem \<Rightarrow> FoodOrder \<Rightarrow> KitchenSystem" where
  "alloc s order = s\<lparr>heap := heap s @ [order]\<rparr>"

subsection \<open>The discard rule of the specification\<close>






section \<open>Lemmas: lists, loops and the invariants\<close>

lemma length_pop: "i < length xs \<Longrightarrow> length (pop i xs) = length xs - 1"
  by (simp add: pop_def)

lemma set_pop_subset: "set (pop i xs) \<subseteq> set xs"
  unfolding pop_def using set_take_subset [of i xs] set_drop_subset [of "Suc i" xs] by auto

lemma distinct_pop: "distinct xs \<Longrightarrow> distinct (pop i xs)"
proof -
  assume d: "distinct xs"
  have "distinct (take i xs)" "distinct (drop i xs)" "set (take i xs) \<inter> set (drop i xs) = {}"
    using d distinct_append [of "take i xs" "drop i xs"] by simp_all
  moreover have "set (drop (Suc i) xs) \<subseteq> set (drop i xs)"
    by (metis drop_Suc set_drop_subset tl_drop drop_drop plus_1_eq_Suc)
  moreover have "distinct (drop (Suc i) xs)" using d by simp
  ultimately show ?thesis unfolding pop_def by auto
qed

lemma nth_notin_pop: "distinct xs \<Longrightarrow> i < length xs \<Longrightarrow> xs ! i \<notin> set (pop i xs)"
proof -
  assume d: "distinct xs" and i: "i < length xs"
  have "xs = take i xs @ xs ! i # drop (Suc i) xs" using i by (simp add: id_take_nth_drop)
  with d have "distinct (take i xs @ xs ! i # drop (Suc i) xs)" by simp
  then show ?thesis by (auto simp: pop_def)
qed

lemma first_index_Some:
  "first_index P xs k = Some i \<Longrightarrow>
     k \<le> i \<and> i - k < length xs \<and> P (xs ! (i - k)) \<and> (\<forall>j<i - k. \<not> P (xs ! j))"
proof (induction xs arbitrary: k)
  case Nil then show ?case by simp
next
  case (Cons x xs)
  show ?case
  proof (cases "P x")
    case True with Cons.prems show ?thesis by simp
  next
    case False
    with Cons.prems have fi: "first_index P xs (Suc k) = Some i" by simp
    from Cons.IH [OF fi] have h: "Suc k \<le> i" "i - Suc k < length xs" "P (xs ! (i - Suc k))"
      "\<forall>j<i - Suc k. \<not> P (xs ! j)" by auto
    have e: "i - k = Suc (i - Suc k)" using h(1) by simp
    show ?thesis using h False unfolding e by (auto simp: nth_Cons split: nat.splits)
  qed
qed

lemma first_index_0: "first_index P xs 0 = Some i \<Longrightarrow> i < length xs \<and> P (xs ! i) \<and> (\<forall>j<i. \<not> P (xs ! j))"
  using first_index_Some [of P xs 0 i] by simp


lemma set_pop_insert: "i < length xs \<Longrightarrow> insert (xs ! i) (set (pop i xs)) = set xs"
proof -
  assume i: "i < length xs"
  have "xs = take i xs @ xs ! i # drop (Suc i) xs" using i by (simp add: id_take_nth_drop)
  then have "set xs = set (take i xs @ xs ! i # drop (Suc i) xs)" by simp
  then show ?thesis by (auto simp: pop_def)
qed

lemma wf_zones_heap_grow: "wf_zones s \<Longrightarrow> wf_zones (s\<lparr>heap := heap s @ [x]\<rparr>)"
  by (auto simp: wf_zones_def zones_def intro: less_SucI)

lemma wf_try_store:
  assumes "wf_zones s" "r < length (heap s)" "r \<notin> set (zones s)"
    and "try_store_at_ideal_temperature s r = (s', b)"
  shows "wf_zones s' \<and> (\<not> b \<longrightarrow> s' = s)"
  using assms
  by (auto simp: wf_zones_def zones_def try_store_at_ideal_temperature_def
      set_storage_location_def Let_def split: if_splits)

lemma distinct_move:
  assumes d: "distinct (a @ b @ c)" and i: "i < length c"
  shows "distinct ((a @ [c ! i]) @ b @ pop i c)" "set ((a @ [c ! i]) @ b @ pop i c) = set (a @ b @ c)"
    "distinct (a @ (b @ [c ! i]) @ pop i c)" "set (a @ (b @ [c ! i]) @ pop i c) = set (a @ b @ c)"
proof -
  have dc: "distinct c" using d by simp
  have x: "c ! i \<in> set c" using i by simp
  have n: "c ! i \<notin> set (pop i c)" using dc i by (rule nth_notin_pop)
  have sub: "set (pop i c) \<subseteq> set c" by (rule set_pop_subset)
  have ins: "insert (c ! i) (set (pop i c)) = set c" using i by (rule set_pop_insert)
  show "distinct ((a @ [c ! i]) @ b @ pop i c)" using d x n sub distinct_pop [OF dc, of i] by auto
  show "distinct (a @ (b @ [c ! i]) @ pop i c)" using d x n sub distinct_pop [OF dc, of i] by auto
  show "set ((a @ [c ! i]) @ b @ pop i c) = set (a @ b @ c)" using ins by auto
  show "set (a @ (b @ [c ! i]) @ pop i c) = set (a @ b @ c)" using ins by auto
qed

lemma wf_move_cooler:
  assumes "wf_zones s" "move_from_shelf_to_cooler s t = (s', b)"
  shows "wf_zones s' \<and> set (zones s') = set (zones s) \<and> length (heap s') = length (heap s)"
proof (cases "first_index (\<lambda>r. temperature (heap s ! r) = COLD \<and> length (cooler s) < 6) (shelf s) 0")
  case None
  with assms show ?thesis by (simp add: move_from_shelf_to_cooler_def)
next
  case (Some i)
  from first_index_0 [OF Some] have i: "i < length (shelf s)" and c: "length (cooler s) < 6" by auto
  have s': "cooler s' = cooler s @ [shelf s ! i]" "heater s' = heater s" "shelf s' = pop i (shelf s)"
    "length (heap s') = length (heap s)"
    using assms(2) Some
    by (auto simp: move_from_shelf_to_cooler_def Let_def set_storage_location_def log_action_def
        bump_moved_def)
  have d: "distinct (cooler s @ heater s @ shelf s)" using assms(1) by (simp add: wf_zones_def zones_def)
  have dz: "distinct (zones s')" and sz: "set (zones s') = set (zones s)"
    unfolding zones_def s' using distinct_move(1,2) [OF d i] by simp_all
  have len: "length (shelf s') \<le> 12" "length (cooler s') \<le> 6" "length (heater s') \<le> 6"
    using assms(1) i c by (auto simp: s' length_pop wf_zones_def)
  show ?thesis using dz sz len assms(1) s'(4) by (auto simp: wf_zones_def)
qed

lemma wf_move_heater:
  assumes "wf_zones s" "move_from_shelf_to_heater s t = (s', b)"
  shows "wf_zones s' \<and> set (zones s') = set (zones s) \<and> length (heap s') = length (heap s)"
proof (cases "first_index (\<lambda>r. temperature (heap s ! r) = HOT \<and> length (heater s) < 6) (shelf s) 0")
  case None
  with assms show ?thesis by (simp add: move_from_shelf_to_heater_def)
next
  case (Some i)
  from first_index_0 [OF Some] have i: "i < length (shelf s)" and c: "length (heater s) < 6" by auto
  have s': "heater s' = heater s @ [shelf s ! i]" "cooler s' = cooler s" "shelf s' = pop i (shelf s)"
    "length (heap s') = length (heap s)"
    using assms(2) Some
    by (auto simp: move_from_shelf_to_heater_def Let_def set_storage_location_def log_action_def
        bump_moved_def)
  have d: "distinct (cooler s @ heater s @ shelf s)" using assms(1) by (simp add: wf_zones_def zones_def)
  have dz: "distinct (zones s')" and sz: "set (zones s') = set (zones s)"
    unfolding zones_def s' using distinct_move(3,4) [OF d i] by simp_all
  have len: "length (shelf s') \<le> 12" "length (cooler s') \<le> 6" "length (heater s') \<le> 6"
    using assms(1) i c by (auto simp: s' length_pop wf_zones_def)
  show ?thesis using dz sz len assms(1) s'(4) by (auto simp: wf_zones_def)
qed

lemma wf_place_on_shelf:
  assumes "wf_zones s" "r < length (heap s)" "r \<notin> set (zones s)" "length (shelf s) < 12"
  shows "wf_zones (place_on_shelf s r)"
  using assms by (auto simp: wf_zones_def zones_def place_on_shelf_def set_storage_location_def)

lemma wf_try_make_room:
  assumes wf: "wf_zones s" and r: "r < length (heap s)" "r \<notin> set (zones s)"
    and run: "try_make_room_and_place s t r = (s', b)"
  shows "wf_zones s' \<and> (\<not> b \<longrightarrow> r < length (heap s') \<and> r \<notin> set (zones s'))"
proof -
  obtain sc bc where mc: "move_from_shelf_to_cooler s t = (sc, bc)" by (cases "move_from_shelf_to_cooler s t")
  obtain sh bh where mh: "move_from_shelf_to_heater s t = (sh, bh)" by (cases "move_from_shelf_to_heater s t")
  note c = wf_move_cooler [OF wf mc] and h = wf_move_heater [OF wf mh]
  have pc: "length (shelf sc) < 12 \<Longrightarrow> wf_zones (place_on_shelf sc r)"
    using c r by (intro wf_place_on_shelf) auto
  have ph: "length (shelf sh) < 12 \<Longrightarrow> wf_zones (place_on_shelf sh r)"
    using h r by (intro wf_place_on_shelf) auto
  have ps: "length (shelf s) < 12 \<Longrightarrow> wf_zones (place_on_shelf s r)"
    using wf r by (intro wf_place_on_shelf) auto
  show ?thesis
    using run c h pc ph ps wf r unfolding try_make_room_and_place_def Let_def mc mh
    by (auto split: if_splits)
qed

lemma choose_loop_index:
  "choose_loop h t rs k bi bs = Inr (Some i) \<Longrightarrow> bi = Some i \<or> (k \<le> i \<and> i < k + length rs)"
proof (induction rs arbitrary: k bi bs)
  case Nil then show ?case by simp
next
  case (Cons r rs)
  then show ?case
    by (fastforce split: sum.splits if_splits)
qed

lemma choose_order_to_discard_index:
  "choose_order_to_discard s t = Inr (Some i) \<Longrightarrow> i < length (shelf s)"
  unfolding choose_order_to_discard_def using choose_loop_index [of "heap s" t "shelf s" 0 None None i]
  by simp

lemma wf_discard_and_place:
  assumes wf: "wf_zones s" and r: "r < length (heap s)" "r \<notin> set (zones s)"
    and run: "discard_and_place s tc td r = (s', res)"
  shows "wf_zones s'"
proof (cases "length (shelf s) \<ge> 12")
  case False
  with run wf show ?thesis by (simp add: discard_and_place_def)
next
  case True
  show ?thesis
  proof (cases "choose_order_to_discard s tc")
    case (Inl e)
    with run wf True show ?thesis by (simp add: discard_and_place_def)
  next
    case (Inr oi)
    show ?thesis
    proof (cases oi)
      case None
      with Inr run wf True show ?thesis by (simp add: discard_and_place_def)
    next
      case (Some i)
      have i: "i < length (shelf s)" using Inr Some choose_order_to_discard_index by simp
      have s': "cooler s' = cooler s" "heater s' = heater s" "shelf s' = pop i (shelf s) @ [r]"
        "length (heap s') = length (heap s)"
        using run Inr Some True
        by (auto simp: discard_and_place_def Let_def place_on_shelf_def set_storage_location_def
            log_action_def bump_discarded_def)
      have sub: "set (pop i (shelf s)) \<subseteq> set (shelf s)" by (rule set_pop_subset)
      have dp: "distinct (pop i (shelf s))" using wf by (intro distinct_pop) (simp add: wf_zones_def zones_def)
      show ?thesis
        using wf r i sub dp unfolding wf_zones_def zones_def s'
        by (auto simp: length_pop)
    qed
  qed
qed

lemma wf_admit: "wf_zones (admit s t oid r det) = wf_zones s"
  by (simp add: wf_zones_def zones_def admit_def log_action_def bump_placed_def Let_def)

text \<open>\<^verbatim>\<open>place_order\<close> as a chain of its three attempts.\<close>

lemma place_order_unfold:
  assumes "try_store_at_ideal_temperature
             (s\<lparr>heap := heap s @ [\<lparr>id' = oid, name = nm, temperature = temp, freshness = fresh,
                   placed_at = t, stored_at = t, storage_location = []\<rparr>]\<rparr>) (length (heap s)) = (s1, b1)"
    and "try_make_room_and_place s1 tm (length (heap s)) = (s2, b2)"
    and "discard_and_place s2 tc td (length (heap s)) = (s3, b3)"
  shows "place_order s t tm tc td oid nm temp fresh =
     (if b1 then (admit s1 t oid (length (heap s)) (''Stored '' @ nm @ '' at ideal temperature''), Inr True)
      else if b2 then (admit s2 t oid (length (heap s)) (''Stored '' @ nm @ '' after making room''), Inr True)
      else (case b3 of Inl e \<Rightarrow> (s3, Inl e)
            | Inr d \<Rightarrow> if d then (admit s3 t oid (length (heap s))
                                   (''Stored '' @ nm @ '' after discarding old order''), Inr True)
                       else (s3, Inr False)))"
  unfolding place_order_def Let_def using assms by (simp split: sum.splits)

lemma wf_place_order:
  assumes wf: "wf_zones s"
  shows "wf_zones (fst (place_order s t tm tc td oid nm temp fresh))"
proof -
  define s0 where "s0 = s\<lparr>heap := heap s @ [\<lparr>id' = oid, name = nm, temperature = temp,
     freshness = fresh, placed_at = t, stored_at = t, storage_location = []\<rparr>]\<rparr>"
  define r where "r = length (heap s)"
  have wf0: "wf_zones s0" unfolding s0_def using wf by (rule wf_zones_heap_grow)
  have r0: "r < length (heap s0)" "r \<notin> set (zones s0)"
    using wf by (auto simp: s0_def r_def wf_zones_def zones_def)
  obtain s1 b1 where e1: "try_store_at_ideal_temperature s0 r = (s1, b1)"
    by (cases "try_store_at_ideal_temperature s0 r")
  note p1 = wf_try_store [OF wf0 r0 e1]
  obtain s2 b2 where e2: "try_make_room_and_place s1 tm r = (s2, b2)"
    by (cases "try_make_room_and_place s1 tm r")
  obtain s3 b3 where e3: "discard_and_place s2 tc td r = (s3, b3)"
    by (cases "discard_and_place s2 tc td r")
  note pe = place_order_unfold [OF e1 [unfolded s0_def r_def] e2 [unfolded r_def] e3 [unfolded r_def]]
  show ?thesis
  proof (cases b1)
    case True
    then show ?thesis using p1 by (simp add: pe wf_admit)
  next
    case False
    then have s1: "s1 = s0" using p1 by simp
    note p2 = wf_try_make_room [OF wf0 r0 e2 [unfolded s1]]
    show ?thesis
    proof (cases b2)
      case True
      then show ?thesis using p2 False by (simp add: pe wf_admit)
    next
      case b2: False
      then have r2: "r < length (heap s2)" "r \<notin> set (zones s2)" using p2 by auto
      have p3: "wf_zones s3" using wf_discard_and_place [OF _ r2 e3] p2 by simp
      show ?thesis using p3 False b2 by (simp add: pe wf_admit split: sum.splits)
    qed
  qed
qed

lemma wf_remove_order_from_storage:
  "wf_zones s \<Longrightarrow> wf_zones (remove_order_from_storage s order)"
  by (auto simp: wf_zones_def zones_def remove_order_from_storage_def
      intro: le_trans [OF length_filter_le])

lemma wf_zones_cong:
  "cooler s' = cooler s \<Longrightarrow> heater s' = heater s \<Longrightarrow> shelf s' = shelf s \<Longrightarrow>
   length (heap s') = length (heap s) \<Longrightarrow> wf_zones s' = wf_zones s"
  by (simp add: wf_zones_def zones_def)

lemma wf_pickup_order: "wf_zones s \<Longrightarrow> wf_zones (fst (pickup_order s t oid))"
proof -
  assume wf: "wf_zones s"
  have a: "\<And>s ts oi ty tg dt. wf_zones (log_action s ts oi ty tg dt) = wf_zones s"
    by (rule wf_zones_cong) (simp_all add: log_action_def)
  have b: "\<And>s. wf_zones (bump_discarded s) = wf_zones s" "\<And>s. wf_zones (bump_picked_up s) = wf_zones s"
    by (rule wf_zones_cong; simp add: bump_discarded_def bump_picked_up_def)+
  have c: "\<And>s f. wf_zones (s\<lparr>orders := f\<rparr>) = wf_zones s"
    by (rule wf_zones_cong) simp_all
  show ?thesis
    using wf wf_remove_order_from_storage [OF wf]
    by (simp add: pickup_order_def Let_def a b c split: option.splits)
qed

lemma list_remove_Some:
  "list_remove h r xs = Some ys \<Longrightarrow>
     set ys \<subseteq> set xs \<and> length ys \<le> length xs \<and> (distinct xs \<longrightarrow> distinct ys)"
proof (induction xs arbitrary: ys)
  case Nil then show ?case by simp
next
  case (Cons x xs)
  then show ?case by (fastforce split: if_splits option.splits)
qed

lemma wf_discard_expired:
  assumes put: "\<And>s zs. wf_zones s \<Longrightarrow> set zs \<subseteq> set (get s) \<Longrightarrow> distinct zs \<Longrightarrow>
                   length zs \<le> length (get s) \<Longrightarrow> wf_zones (put zs s)"
    and get: "\<And>s. wf_zones s \<Longrightarrow> distinct (get s)"
  shows "wf_zones s \<Longrightarrow> wf_zones (fst (discard_expired get put tgt t rs s))"
proof (induction rs arbitrary: s)
  case Nil then show ?case by simp
next
  case (Cons r rs)
  show ?case
  proof (cases "list_remove (heap s) r (get s)")
    case None
    then show ?thesis using Cons.prems by simp
  next
    case (Some zs)
    from list_remove_Some [OF Some] get [OF Cons.prems]
    have z: "set zs \<subseteq> set (get s)" "length zs \<le> length (get s)" "distinct zs" by auto
    have w1: "wf_zones (put zs s)" using put [OF Cons.prems z(1) z(3) z(2)] .
    have a: "\<And>s ts oi ty tg dt. wf_zones (log_action s ts oi ty tg dt) = wf_zones s"
      by (rule wf_zones_cong) (simp_all add: log_action_def)
    have b: "\<And>s. wf_zones (bump_discarded s) = wf_zones s"
      by (rule wf_zones_cong; simp add: bump_discarded_def)
    have c: "\<And>s f. wf_zones (s\<lparr>orders := f\<rparr>) = wf_zones s"
      by (rule wf_zones_cong) simp_all
    show ?thesis
      using Some by (simp add: Let_def) (intro Cons.IH conjI impI, simp_all add: a b c w1)
  qed
qed

lemma wf_cleanup_expired_orders:
  assumes wf: "wf_zones s"
  shows "wf_zones (fst (cleanup_expired_orders s t))"
proof -
  have c: "\<And>s rs. wf_zones s \<Longrightarrow>
      wf_zones (fst (discard_expired cooler (\<lambda>zs s. s\<lparr>cooler := zs\<rparr>) ''cooler'' t rs s))"
    by (rule wf_discard_expired) (auto simp: wf_zones_def zones_def)
  have h: "\<And>s rs. wf_zones s \<Longrightarrow>
      wf_zones (fst (discard_expired heater (\<lambda>zs s. s\<lparr>heater := zs\<rparr>) ''heater'' t rs s))"
    by (rule wf_discard_expired) (auto simp: wf_zones_def zones_def)
  have sh: "\<And>s rs. wf_zones s \<Longrightarrow>
      wf_zones (fst (discard_expired shelf (\<lambda>zs s. s\<lparr>shelf := zs\<rparr>) ''shelf'' t rs s))"
    by (rule wf_discard_expired) (auto simp: wf_zones_def zones_def)
  obtain s1 r1 where e1: "discard_expired cooler (\<lambda>zs s. s\<lparr>cooler := zs\<rparr>) ''cooler'' t
             (expired_in s t (cooler s)) s = (s1, r1)"
    by (cases "discard_expired cooler (\<lambda>zs s. s\<lparr>cooler := zs\<rparr>) ''cooler'' t
             (expired_in s t (cooler s)) s")
  obtain s2 r2 where e2: "discard_expired heater (\<lambda>zs s. s\<lparr>heater := zs\<rparr>) ''heater'' t
             (expired_in s1 t (heater s1)) s1 = (s2, r2)"
    by (cases "discard_expired heater (\<lambda>zs s. s\<lparr>heater := zs\<rparr>) ''heater'' t
             (expired_in s1 t (heater s1)) s1")
  have w1: "wf_zones s1" using c [OF wf, of "expired_in s t (cooler s)"] e1 by simp
  have w2: "wf_zones s2" using h [OF w1, of "expired_in s1 t (heater s1)"] e2 by simp
  have w3: "wf_zones (fst (discard_expired shelf (\<lambda>zs s. s\<lparr>shelf := zs\<rparr>) ''shelf'' t
                 (expired_in s2 t (shelf s2)) s2))" using sh [OF w2] .
  show ?thesis
    unfolding cleanup_expired_orders_def e1 using w1 w2 w3
    by (simp add: e2 split: sum.splits)
qed

lemma wf_zones_init: "wf_zones KitchenSystem_init"
  by (simp add: wf_zones_def zones_def KitchenSystem_init_def)

lemma reachable_wf_zones: "reachable s \<Longrightarrow> wf_zones s"
  by (induction rule: reachable.induct)
     (simp_all add: wf_zones_init wf_place_order wf_pickup_order wf_cleanup_expired_orders)

lemma wfl_heap_grow:
  "wf_zones s \<Longrightarrow> wf_locations s \<Longrightarrow> wf_locations (s\<lparr>heap := heap s @ [x]\<rparr>)"
  by (auto simp: wf_zones_def zones_def wf_locations_def nth_append intro: less_SucI)

lemma wfl_set_location:
  assumes "wf_locations s" "r \<notin> set (zones s)" "r < length (heap s)"
    "loc = ''cooler'' \<or> loc = ''heater'' \<or> loc = ''shelf''"
  shows "wf_locations (set_storage_location s r loc)"
  using assms
  by (auto simp: wf_locations_def zones_def set_storage_location_def nth_list_update)

lemma zones_set_location [simp]:
  "cooler (set_storage_location s r loc) = cooler s"
  "heater (set_storage_location s r loc) = heater s"
  "shelf (set_storage_location s r loc) = shelf s"
  "orders (set_storage_location s r loc) = orders s"
  "actions (set_storage_location s r loc) = actions s"
  "stats (set_storage_location s r loc) = stats s"
  "length (heap (set_storage_location s r loc)) = length (heap s)"
  by (simp_all add: set_storage_location_def)

lemma heap_set_location:
  "r < length (heap s) \<Longrightarrow>
   heap (set_storage_location s r loc) ! x =
     (if x = r then (heap s ! r)\<lparr>storage_location := loc\<rparr> else heap s ! x)"
  by (simp add: set_storage_location_def nth_list_update)

lemma wfl_try_store:
  assumes "wf_zones s" "wf_locations s" "r < length (heap s)" "r \<notin> set (zones s)"
    and "try_store_at_ideal_temperature s r = (s', b)"
  shows "wf_locations s'"
  using assms
  by (auto simp: wf_locations_def zones_def try_store_at_ideal_temperature_def
      heap_set_location Let_def split: if_splits)

lemma wfl_place_on_shelf:
  assumes "wf_locations s" "r < length (heap s)" "r \<notin> set (zones s)"
  shows "wf_locations (place_on_shelf s r)"
  using assms
  by (auto simp: wf_locations_def zones_def place_on_shelf_def heap_set_location)

lemma wfl_cong:
  "cooler s' = cooler s \<Longrightarrow> heater s' = heater s \<Longrightarrow> shelf s' = shelf s \<Longrightarrow>
   heap s' = heap s \<Longrightarrow> orders s' = orders s \<Longrightarrow> wf_locations s' = wf_locations s"
  by (simp add: wf_locations_def)

lemma wfl_move_cooler:
  assumes wf: "wf_zones s" and wl: "wf_locations s" and run: "move_from_shelf_to_cooler s t = (s', b)"
  shows "wf_locations s'"
proof (cases "first_index (\<lambda>r. temperature (heap s ! r) = COLD \<and> length (cooler s) < 6) (shelf s) 0")
  case None
  with run wl show ?thesis by (simp add: move_from_shelf_to_cooler_def)
next
  case (Some i)
  from first_index_0 [OF Some] have i: "i < length (shelf s)" by auto
  define m where "m = shelf s ! i"
  have s': "cooler s' = cooler s @ [m]" "heater s' = heater s" "shelf s' = pop i (shelf s)"
    "orders s' = orders s" "heap s' = (heap s)[m := (heap s ! m)\<lparr>storage_location := ''cooler''\<rparr>]"
    using run Some
    by (auto simp: move_from_shelf_to_cooler_def Let_def set_storage_location_def log_action_def
        bump_moved_def m_def)
  have d: "distinct (cooler s @ heater s @ shelf s)" using wf by (simp add: wf_zones_def zones_def)
  have m: "m \<in> set (shelf s)" "m < length (heap s)" "m \<notin> set (cooler s)" "m \<notin> set (heater s)"
    "m \<notin> set (pop i (shelf s))"
    using i d wf nth_notin_pop [of "shelf s" i] by (auto simp: m_def wf_zones_def zones_def)
  have sub: "set (pop i (shelf s)) \<subseteq> set (shelf s)" by (rule set_pop_subset)
  show ?thesis
    using wl m sub unfolding wf_locations_def s'
    by (auto simp: nth_list_update)
qed

lemma wfl_move_heater:
  assumes wf: "wf_zones s" and wl: "wf_locations s" and run: "move_from_shelf_to_heater s t = (s', b)"
  shows "wf_locations s'"
proof (cases "first_index (\<lambda>r. temperature (heap s ! r) = HOT \<and> length (heater s) < 6) (shelf s) 0")
  case None
  with run wl show ?thesis by (simp add: move_from_shelf_to_heater_def)
next
  case (Some i)
  from first_index_0 [OF Some] have i: "i < length (shelf s)" by auto
  define m where "m = shelf s ! i"
  have s': "heater s' = heater s @ [m]" "cooler s' = cooler s" "shelf s' = pop i (shelf s)"
    "orders s' = orders s" "heap s' = (heap s)[m := (heap s ! m)\<lparr>storage_location := ''heater''\<rparr>]"
    using run Some
    by (auto simp: move_from_shelf_to_heater_def Let_def set_storage_location_def log_action_def
        bump_moved_def m_def)
  have d: "distinct (cooler s @ heater s @ shelf s)" using wf by (simp add: wf_zones_def zones_def)
  have m: "m \<in> set (shelf s)" "m < length (heap s)" "m \<notin> set (cooler s)" "m \<notin> set (heater s)"
    "m \<notin> set (pop i (shelf s))"
    using i d wf nth_notin_pop [of "shelf s" i] by (auto simp: m_def wf_zones_def zones_def)
  have sub: "set (pop i (shelf s)) \<subseteq> set (shelf s)" by (rule set_pop_subset)
  show ?thesis
    using wl m sub unfolding wf_locations_def s'
    by (auto simp: nth_list_update)
qed

lemma wfl_try_make_room:
  assumes wf: "wf_zones s" and wl: "wf_locations s" and r: "r < length (heap s)" "r \<notin> set (zones s)"
    and run: "try_make_room_and_place s t r = (s', b)"
  shows "wf_locations s'"
proof -
  obtain sc bc where mc: "move_from_shelf_to_cooler s t = (sc, bc)" by (cases "move_from_shelf_to_cooler s t")
  obtain sh bh where mh: "move_from_shelf_to_heater s t = (sh, bh)" by (cases "move_from_shelf_to_heater s t")
  note c = wf_move_cooler [OF wf mc] and h = wf_move_heater [OF wf mh]
  note lc = wfl_move_cooler [OF wf wl mc] and lh = wfl_move_heater [OF wf wl mh]
  have pc: "wf_locations (place_on_shelf sc r)"
    using c r lc by (intro wfl_place_on_shelf) auto
  have ph: "wf_locations (place_on_shelf sh r)"
    using h r lh by (intro wfl_place_on_shelf) auto
  have ps: "wf_locations (place_on_shelf s r)"
    using wl r by (intro wfl_place_on_shelf) auto
  show ?thesis
    using run lc lh pc ph ps wl unfolding try_make_room_and_place_def Let_def mc mh
    by (auto split: if_splits)
qed

lemma wfl_discard_and_place:
  assumes wf: "wf_zones s" and wl: "wf_locations s" and r: "r < length (heap s)" "r \<notin> set (zones s)"
    and run: "discard_and_place s tc td r = (s', res)"
  shows "wf_locations s'"
proof (cases "length (shelf s) \<ge> 12")
  case False
  with run wl show ?thesis by (simp add: discard_and_place_def)
next
  case True
  show ?thesis
  proof (cases "choose_order_to_discard s tc")
    case (Inl e)
    with run wl True show ?thesis by (simp add: discard_and_place_def)
  next
    case (Inr oi)
    show ?thesis
    proof (cases oi)
      case None
      with Inr run wl True show ?thesis by (simp add: discard_and_place_def)
    next
      case (Some i)
      have s': "cooler s' = cooler s" "heater s' = heater s" "shelf s' = pop i (shelf s) @ [r]"
        "orders s' = orders s" "heap s' = (heap s)[r := (heap s ! r)\<lparr>storage_location := ''shelf''\<rparr>]"
        using run Inr Some True
        by (auto simp: discard_and_place_def Let_def place_on_shelf_def set_storage_location_def
            log_action_def bump_discarded_def)
      have sub: "set (pop i (shelf s)) \<subseteq> set (shelf s)" by (rule set_pop_subset)
      show ?thesis
        using wl r sub unfolding wf_locations_def zones_def s'
        by (auto simp: nth_list_update)
    qed
  qed
qed

lemma try_store_member:
  "try_store_at_ideal_temperature s r = (s', True) \<Longrightarrow> r \<in> set (zones s')"
  by (auto simp: try_store_at_ideal_temperature_def zones_def Let_def split: if_splits)

lemma place_on_shelf_member: "r \<in> set (zones (place_on_shelf s r))"
  by (simp add: place_on_shelf_def zones_def)

lemma try_make_room_member:
  "try_make_room_and_place s t r = (s', True) \<Longrightarrow> r \<in> set (zones s')"
  by (auto simp: try_make_room_and_place_def Let_def place_on_shelf_member
      split: if_splits prod.splits)

lemma discard_and_place_member:
  "discard_and_place s tc td r = (s', Inr True) \<Longrightarrow> r \<in> set (zones s')"
  by (auto simp: discard_and_place_def Let_def place_on_shelf_member
      split: if_splits sum.splits option.splits)

lemma ran_upd_subset: "ran (m(k \<mapsto> v)) \<subseteq> insert v (ran m)"
  by (auto simp: ran_def split: if_splits)

lemma ran_del_subset: "ran (m(k := None)) \<subseteq> ran m"
  by (auto simp: ran_def split: if_splits)

lemma wfl_admit:
  assumes "wf_zones s" "wf_locations s" "r \<in> set (zones s)"
  shows "wf_locations (admit s t oid r det)"
proof -
  have r: "r < length (heap s)"
    "storage_location (heap s ! r) = ''cooler'' \<or> storage_location (heap s ! r) = ''heater'' \<or>
     storage_location (heap s ! r) = ''shelf''"
    using assms by (auto simp: wf_zones_def wf_locations_def zones_def)
  have e: "cooler (admit s t oid r det) = cooler s" "heater (admit s t oid r det) = heater s"
    "shelf (admit s t oid r det) = shelf s" "heap (admit s t oid r det) = heap s"
    "orders (admit s t oid r det) = (orders s)(oid \<mapsto> r)"
    by (simp_all add: admit_def Let_def log_action_def bump_placed_def)
  show ?thesis
    using assms(2) r ran_upd_subset [of "orders s" oid r] unfolding wf_locations_def e
    by (auto simp del: fun_upd_apply)
qed

lemma wfl_place_order:
  assumes wf: "wf_zones s" and wl: "wf_locations s"
  shows "wf_locations (fst (place_order s t tm tc td oid nm temp fresh))"
proof -
  define s0 where "s0 = s\<lparr>heap := heap s @ [\<lparr>id' = oid, name = nm, temperature = temp,
     freshness = fresh, placed_at = t, stored_at = t, storage_location = []\<rparr>]\<rparr>"
  define r where "r = length (heap s)"
  have wf0: "wf_zones s0" unfolding s0_def using wf by (rule wf_zones_heap_grow)
  have wl0: "wf_locations s0" unfolding s0_def using wf wl by (rule wfl_heap_grow)
  have r0: "r < length (heap s0)" "r \<notin> set (zones s0)"
    using wf by (auto simp: s0_def r_def wf_zones_def zones_def)
  obtain s1 b1 where e1: "try_store_at_ideal_temperature s0 r = (s1, b1)"
    by (cases "try_store_at_ideal_temperature s0 r")
  note p1 = wf_try_store [OF wf0 r0 e1] and l1 = wfl_try_store [OF wf0 wl0 r0 e1]
  obtain s2 b2 where e2: "try_make_room_and_place s1 tm r = (s2, b2)"
    by (cases "try_make_room_and_place s1 tm r")
  obtain s3 b3 where e3: "discard_and_place s2 tc td r = (s3, b3)"
    by (cases "discard_and_place s2 tc td r")
  note pe = place_order_unfold [OF e1 [unfolded s0_def r_def] e2 [unfolded r_def] e3 [unfolded r_def]]
  show ?thesis
  proof (cases b1)
    case True
    then have "r \<in> set (zones s1)" using e1 try_store_member by simp
    then show ?thesis using p1 l1 True by (simp add: pe r_def wfl_admit)
  next
    case False
    then have s1: "s1 = s0" using p1 by simp
    note p2 = wf_try_make_room [OF wf0 r0 e2 [unfolded s1]]
      and l2 = wfl_try_make_room [OF wf0 wl0 r0 e2 [unfolded s1]]
    show ?thesis
    proof (cases b2)
      case True
      then have "r \<in> set (zones s2)" using e2 try_make_room_member by simp
      then show ?thesis using p2 l2 True False by (simp add: pe r_def wfl_admit)
    next
      case b2: False
      then have r2: "r < length (heap s2)" "r \<notin> set (zones s2)" using p2 by auto
      have w2: "wf_zones s2" using p2 by simp
      have p3: "wf_zones s3" using wf_discard_and_place [OF w2 r2 e3] .
      have l3: "wf_locations s3" using wfl_discard_and_place [OF w2 l2 r2 e3] .
      have m3: "b3 = Inr True \<Longrightarrow> r \<in> set (zones s3)" using e3 discard_and_place_member by simp
      show ?thesis using p3 l3 m3 False b2 by (auto simp add: pe r_def wfl_admit split: sum.splits)
    qed
  qed
qed

lemma wfl_remove_order_from_storage:
  "wf_locations s \<Longrightarrow> wf_locations (remove_order_from_storage s order)"
  by (auto simp: wf_locations_def remove_order_from_storage_def)

lemma wfl_orders_del: "wf_locations s \<Longrightarrow> wf_locations (s\<lparr>orders := (orders s)(k := None)\<rparr>)"
  using ran_del_subset [of "orders s" k] unfolding wf_locations_def
  by (auto simp del: fun_upd_apply)

lemma wfl_log_action: "wf_locations (log_action s ts oi ty tg dt) = wf_locations s"
  by (rule wfl_cong) (simp_all add: log_action_def)

lemma wfl_bump_discarded: "wf_locations (bump_discarded s) = wf_locations s"
  by (rule wfl_cong) (simp_all add: bump_discarded_def)

lemma wfl_bump_picked_up: "wf_locations (bump_picked_up s) = wf_locations s"
  by (rule wfl_cong) (simp_all add: bump_picked_up_def)

lemma wfl_pickup_order: "wf_locations s \<Longrightarrow> wf_locations (fst (pickup_order s t oid))"
proof -
  assume wl: "wf_locations s"
  have o: "\<And>s. orders (bump_discarded s) = orders s" "\<And>s. orders (bump_picked_up s) = orders s"
    by (simp_all add: bump_discarded_def bump_picked_up_def)
  have d: "\<And>s. wf_locations s \<Longrightarrow> wf_locations (s\<lparr>orders := (orders s)(oid := None)\<rparr>)"
    by (rule wfl_orders_del)
  show ?thesis
    unfolding pickup_order_def Let_def
    by (auto split: option.splits
        intro!: d simp: wl wfl_remove_order_from_storage wfl_log_action
        wfl_bump_discarded wfl_bump_picked_up)
qed

lemma wfl_discard_expired:
  assumes put: "\<And>s zs. wf_locations s \<Longrightarrow> set zs \<subseteq> set (get s) \<Longrightarrow> wf_locations (put zs s)"
  shows "wf_locations s \<Longrightarrow> wf_locations (fst (discard_expired get put tgt t rs s))"
proof (induction rs arbitrary: s)
  case Nil then show ?case by simp
next
  case (Cons r rs)
  show ?case
  proof (cases "list_remove (heap s) r (get s)")
    case None
    then show ?thesis using Cons.prems by simp
  next
    case (Some zs)
    from list_remove_Some [OF Some] have z: "set zs \<subseteq> set (get s)" by auto
    have w1: "wf_locations (put zs s)" using put [OF Cons.prems z] .
    have w3: "wf_locations (bump_discarded (log_action (put zs s) t (id' (heap s ! r)) DISCARD tgt
                 (''Auto-discarded expired '' @ name (heap s ! r))))"
      using w1 by (simp add: wfl_bump_discarded wfl_log_action)
    show ?thesis
      using Some w3 wfl_orders_del [OF w3]
      by (simp add: Let_def) (intro Cons.IH conjI impI, simp_all)
  qed
qed

lemma wfl_cleanup_expired_orders:
  assumes wl: "wf_locations s"
  shows "wf_locations (fst (cleanup_expired_orders s t))"
proof -
  have c: "\<And>s rs. wf_locations s \<Longrightarrow>
      wf_locations (fst (discard_expired cooler (\<lambda>zs s. s\<lparr>cooler := zs\<rparr>) ''cooler'' t rs s))"
    by (rule wfl_discard_expired) (auto simp: wf_locations_def)
  have h: "\<And>s rs. wf_locations s \<Longrightarrow>
      wf_locations (fst (discard_expired heater (\<lambda>zs s. s\<lparr>heater := zs\<rparr>) ''heater'' t rs s))"
    by (rule wfl_discard_expired) (auto simp: wf_locations_def)
  have sh: "\<And>s rs. wf_locations s \<Longrightarrow>
      wf_locations (fst (discard_expired shelf (\<lambda>zs s. s\<lparr>shelf := zs\<rparr>) ''shelf'' t rs s))"
    by (rule wfl_discard_expired) (auto simp: wf_locations_def)
  obtain s1 r1 where e1: "discard_expired cooler (\<lambda>zs s. s\<lparr>cooler := zs\<rparr>) ''cooler'' t
             (expired_in s t (cooler s)) s = (s1, r1)"
    by (cases "discard_expired cooler (\<lambda>zs s. s\<lparr>cooler := zs\<rparr>) ''cooler'' t
             (expired_in s t (cooler s)) s")
  obtain s2 r2 where e2: "discard_expired heater (\<lambda>zs s. s\<lparr>heater := zs\<rparr>) ''heater'' t
             (expired_in s1 t (heater s1)) s1 = (s2, r2)"
    by (cases "discard_expired heater (\<lambda>zs s. s\<lparr>heater := zs\<rparr>) ''heater'' t
             (expired_in s1 t (heater s1)) s1")
  have w1: "wf_locations s1" using c [OF wl, of "expired_in s t (cooler s)"] e1 by simp
  have w2: "wf_locations s2" using h [OF w1, of "expired_in s1 t (heater s1)"] e2 by simp
  have w3: "wf_locations (fst (discard_expired shelf (\<lambda>zs s. s\<lparr>shelf := zs\<rparr>) ''shelf'' t
                 (expired_in s2 t (shelf s2)) s2))" using sh [OF w2] .
  show ?thesis
    unfolding cleanup_expired_orders_def e1 using w1 w2 w3
    by (simp add: e2 split: sum.splits)
qed

lemma wf_locations_init: "wf_locations KitchenSystem_init"
  by (simp add: wf_locations_def KitchenSystem_init_def)

lemma reachable_wf_locations: "reachable s \<Longrightarrow> wf_locations s"
proof (induction rule: reachable.induct)
  case init
  show ?case by (rule wf_locations_init)
next
  case (place s current_time t_move t_choose t_discard oid nm temp fresh)
  then show ?case using reachable_wf_zones wfl_place_order by blast
next
  case (pickup s current_time oid)
  then show ?case using wfl_pickup_order by blast
next
  case (cleanup s current_time)
  then show ?case using wfl_cleanup_expired_orders by blast
qed

section \<open>Lemmas: scenarios are executions\<close>

lemma reachable_place_all: "reachable s \<Longrightarrow> reachable (place_all s t os)"
proof (induction os arbitrary: s)
  case Nil
  then show ?case by simp
next
  case (Cons x xs)
  obtain oid nm temp fresh where x: "x = (oid, nm, temp, fresh)" by (cases x)
  show ?case unfolding x place_all.simps
    by (rule Cons.IH) (rule reachable.place [OF Cons.prems])
qed



lemma reachable_one_hot: "reachable one_hot"
  unfolding one_hot_def by (rule reachable.place [OF reachable.init])

lemma reachable_cooler_freed: "reachable cooler_freed"
  unfolding cooler_freed_def
  by (rule reachable.pickup [OF reachable_place_all [OF reachable.init]])

section \<open>Lemmas: what \<^verbatim>\<open>place_order\<close> does\<close>

lemma try_store_False:
  "try_store_at_ideal_temperature s r = (s', False) \<Longrightarrow>
     s' = s \<and> \<not> (temperature (heap s ! r) = COLD \<and> length (cooler s) < 6) \<and>
     \<not> (temperature (heap s ! r) = HOT \<and> length (heater s) < 6) \<and>
     \<not> (temperature (heap s ! r) = ROOM \<and> length (shelf s) < 12)"
  by (auto simp: try_store_at_ideal_temperature_def Let_def split: if_splits)

lemma make_room_after_failed_store:
  assumes "try_store_at_ideal_temperature s r = (s', False)"
  shows "try_make_room_and_place s t r =
           (if length (shelf s) < 12 then (place_on_shelf s r, True) else (s, False))"
proof -
  from try_store_False [OF assms]
  have c: "(temperature (heap s ! r) = COLD \<and> length (cooler s) < 6) = False"
    and h: "(temperature (heap s ! r) = HOT \<and> length (heater s) < 6) = False"
    by blast+
  show ?thesis unfolding try_make_room_and_place_def Let_def c h by simp
qed





lemma place_order_cases:
  "place_order s t tm tc td oid nm temp fresh =
     (let s0 = alloc s (new_order oid nm temp fresh t); r = length (heap s) in
      if snd (try_store_at_ideal_temperature s0 r)
      then (admit (fst (try_store_at_ideal_temperature s0 r)) t oid r
              (''Stored '' @ nm @ '' at ideal temperature''), Inr True)
      else if length (shelf s) < 12
      then (admit (place_on_shelf s0 r) t oid r (''Stored '' @ nm @ '' after making room''), Inr True)
      else (case choose_order_to_discard s0 tc of
              Inl e \<Rightarrow> (s0, Inl e)
            | Inr None \<Rightarrow> (s0, Inr False)
            | Inr (Some i) \<Rightarrow>
                (admit (place_on_shelf
                          (bump_discarded
                             (log_action (s0\<lparr>shelf := pop i (shelf s0)\<rparr>) td
                                (id' (heap s0 ! (shelf s0 ! i))) DISCARD ''shelf''
                                (''Discarded '' @ name (heap s0 ! (shelf s0 ! i)) @ '' to make room'')))
                          r)
                   t oid r (''Stored '' @ nm @ '' after discarding old order''), Inr True)))"
proof -
  define s0 where "s0 = alloc s (new_order oid nm temp fresh t)"
  define r where "r = length (heap s)"
  have sh: "shelf s0 = shelf s" by (simp add: s0_def alloc_def)
  obtain s1 b1 where e1: "try_store_at_ideal_temperature s0 r = (s1, b1)"
    by (cases "try_store_at_ideal_temperature s0 r")
  have po: "place_order s t tm tc td oid nm temp fresh =
     (if b1 then (admit s1 t oid r (''Stored '' @ nm @ '' at ideal temperature''), Inr True)
      else (case try_make_room_and_place s1 tm r of
              (s2, placed) \<Rightarrow>
                if placed then (admit s2 t oid r (''Stored '' @ nm @ '' after making room''), Inr True)
                else (case discard_and_place s2 tc td r of
                        (s3, Inl e) \<Rightarrow> (s3, Inl e)
                      | (s3, Inr discarded) \<Rightarrow>
                          if discarded
                          then (admit s3 t oid r (''Stored '' @ nm @ '' after discarding old order''), Inr True)
                          else (s3, Inr False))))"
    using e1 unfolding place_order_def Let_def s0_def r_def alloc_def new_order_def by simp
  show ?thesis
  proof (cases b1)
    case True
    then show ?thesis
      unfolding po Let_def s0_def [symmetric] r_def [symmetric] using e1 by simp
  next
    case False
    with e1 have e1': "try_store_at_ideal_temperature s0 r = (s1, False)" by simp
    have s1: "s1 = s0" using try_store_False [OF e1'] by simp
    note mr = make_room_after_failed_store [OF e1', of tm]
    show ?thesis
    proof (cases "length (shelf s) < 12")
      case True
      then show ?thesis
        unfolding po Let_def s0_def [symmetric] r_def [symmetric] using False e1 mr s1 sh by simp
    next
      case full: False
      have dp: "discard_and_place s0 tc td r =
        (case choose_order_to_discard s0 tc of
              Inl e \<Rightarrow> (s0, Inl e)
            | Inr None \<Rightarrow> (s0, Inr False)
            | Inr (Some i) \<Rightarrow>
                (place_on_shelf
                          (bump_discarded
                             (log_action (s0\<lparr>shelf := pop i (shelf s0)\<rparr>) td
                                (id' (heap s0 ! (shelf s0 ! i))) DISCARD ''shelf''
                                (''Discarded '' @ name (heap s0 ! (shelf s0 ! i)) @ '' to make room'')))
                          r, Inr True))"
        using full sh by (simp add: discard_and_place_def Let_def split: sum.splits option.splits)
      show ?thesis
        unfolding po Let_def s0_def [symmetric] r_def [symmetric] using False e1 mr s1 sh full
        by (simp add: dp split: sum.splits option.splits)
    qed
  qed
qed


lemma admit_fields:
  "orders (admit s t oid r det) oid = Some r"
  "actions (admit s t oid r det) =
     actions s @ [\<lparr>timestamp = t, order_id = oid, action_type = PLACE,
                   target = storage_location (heap s ! r), details = det\<rparr>]"
  "heap (admit s t oid r det) = heap s"
  "cooler (admit s t oid r det) = cooler s"
  "heater (admit s t oid r det) = heater s"
  "shelf (admit s t oid r det) = shelf s"
  by (simp_all add: admit_def Let_def log_action_def bump_placed_def)



text \<open>
  The relocation branches of \<^verbatim>\<open>_try_make_room_and_place\<close> are guarded by the negation
  of the condition under which \<^verbatim>\<open>place_order\<close> reaches them: no call of
  \<^verbatim>\<open>place_order\<close> moves an order.
\<close>

lemma place_order_never_moves:
  "orders_moved (stats (fst (place_order s t tm tc td oid nm temp fresh))) = orders_moved (stats s) \<and>
   filter (\<lambda>a. action_type a = MOVE) (actions (fst (place_order s t tm tc td oid nm temp fresh))) =
   filter (\<lambda>a. action_type a = MOVE) (actions s)"
proof -
  have a: "\<And>s r det. orders_moved (stats (admit s t oid r det)) = orders_moved (stats s)"
    by (simp add: admit_def Let_def log_action_def bump_placed_def)
  have ts: "\<And>s r. stats (fst (try_store_at_ideal_temperature s r)) = stats s \<and>
                   actions (fst (try_store_at_ideal_temperature s r)) = actions s"
    by (simp add: try_store_at_ideal_temperature_def Let_def set_storage_location_def)
  show ?thesis
    unfolding place_order_cases Let_def
    by (simp add: a ts admit_fields alloc_def place_on_shelf_def set_storage_location_def
        bump_discarded_def log_action_def split: sum.splits option.splits)
qed

section \<open>Lemmas: what \<^verbatim>\<open>pickup_order\<close> does\<close>

lemma is_fresh_tracked:
  assumes "wf_locations s" "orders s oid = Some r"
  shows "is_fresh (heap s ! r) t \<longleftrightarrow>
         t - stored_at (heap s ! r) < real_of_int (freshness (heap s ! r)) / 2"
proof -
  have "r \<in> ran (orders s)" using assms(2) by (auto simp: ran_def)
  then have "storage_location (heap s ! r) = ''cooler'' \<or> storage_location (heap s ! r) = ''heater'' \<or>
     storage_location (heap s ! r) = ''shelf''"
    using assms(1) by (simp add: wf_locations_def)
  then have "storage_location (heap s ! r) \<noteq> temperature_value (temperature (heap s ! r))"
    by (cases "temperature (heap s ! r)") auto
  then show ?thesis by (simp add: is_fresh_def Let_def)
qed

lemma remove_order_from_storage_gone:
  assumes "wf_locations s"
  shows "r \<notin> set (zones (remove_order_from_storage s (heap s ! r)))"
  using assms
  by (auto simp: wf_locations_def zones_def remove_order_from_storage_def)

lemma pickup_order_tracked:
  assumes "orders s oid = Some r"
  shows "\<exists>ty. (ty = PICKUP \<or> ty = DISCARD) \<and>
     (ty = PICKUP \<longleftrightarrow> is_fresh (heap s ! r) now) \<and>
     actions (fst (pickup_order s now oid)) =
       actions s @ [\<lparr>timestamp = now, order_id = oid, action_type = ty,
                     target = storage_location (heap s ! r),
                     details = (if ty = PICKUP then ''Picked up '' else ''Discarded expired '') @ name (heap s ! r)\<rparr>] \<and>
     snd (pickup_order s now oid) = (if ty = PICKUP then Some (heap s ! r) else None) \<and>
     orders (fst (pickup_order s now oid)) = (orders s)(oid := None) \<and>
     zones (fst (pickup_order s now oid)) = zones (remove_order_from_storage s (heap s ! r))"
proof -
  have o: "\<And>order. orders (remove_order_from_storage s order) = orders s"
    "\<And>order. actions (remove_order_from_storage s order) = actions s"
    by (simp_all add: remove_order_from_storage_def)
  show ?thesis
  proof (cases "is_fresh (heap s ! r) now")
    case True
    show ?thesis
      by (rule exI [of _ PICKUP])
         (simp add: pickup_order_def assms True Let_def zones_def o log_action_def bump_picked_up_def)
  next
    case False
    show ?thesis
      by (rule exI [of _ DISCARD])
         (simp add: pickup_order_def assms False Let_def zones_def o log_action_def bump_discarded_def)
  qed
qed

section \<open>Lemmas: the victim loop\<close>











lemma discard_score_Inr_budget: "discard_score order t = Inr sc \<Longrightarrow> freshness order \<noteq> 0"
  by (auto simp: discard_score_def Let_def split: if_splits)



section \<open>Lemmas: what a relocation does\<close>

lemma cooler_freed_shelf: "shelf cooler_freed = [6]"
  unfolding cooler_freed_def seven_cold_orders_def by code_simp

lemma cooler_freed_moves: "move_from_shelf_to_cooler cooler_freed 2 = (after_move, True)"
proof -
  have "snd (move_from_shelf_to_cooler cooler_freed 2) = True"
    unfolding cooler_freed_def seven_cold_orders_def by code_simp
  then show ?thesis unfolding after_move_def by (simp add: prod_eq_iff)
qed

lemma move_cooler_effect:
  assumes wf: "wf_zones s" and wl: "wf_locations s"
    and run: "move_from_shelf_to_cooler s t = (s', True)"
  shows "\<exists>i<length (shelf s).
           temperature (heap s ! (shelf s ! i)) = COLD \<and>
           (\<forall>j<i. temperature (heap s ! (shelf s ! j)) \<noteq> COLD) \<and>
           shelf s' = pop i (shelf s) \<and> cooler s' = cooler s @ [shelf s ! i] \<and>
           heap s' ! (shelf s ! i) = (heap s ! (shelf s ! i))\<lparr>storage_location := ''cooler''\<rparr> \<and>
           spec_life_remaining (heap s' ! (shelf s ! i)) t =
             spec_life_remaining (heap s ! (shelf s ! i)) t + (t - stored_at (heap s ! (shelf s ! i)))"
proof (cases "first_index (\<lambda>r. temperature (heap s ! r) = COLD \<and> length (cooler s) < 6) (shelf s) 0")
  case None
  with run show ?thesis by (simp add: move_from_shelf_to_cooler_def)
next
  case (Some i)
  from first_index_0 [OF Some] have i: "i < length (shelf s)"
    and c: "temperature (heap s ! (shelf s ! i)) = COLD" "length (cooler s) < 6"
    and first: "\<forall>j<i. \<not> (temperature (heap s ! (shelf s ! j)) = COLD \<and> length (cooler s) < 6)"
    by auto
  define m where "m = shelf s ! i"
  have s': "cooler s' = cooler s @ [m]" "shelf s' = pop i (shelf s)"
    "heap s' = (heap s)[m := (heap s ! m)\<lparr>storage_location := ''cooler''\<rparr>]"
    using run Some
    by (auto simp: move_from_shelf_to_cooler_def Let_def set_storage_location_def log_action_def
        bump_moved_def m_def)
  have m: "m \<in> set (shelf s)" using i by (simp add: m_def)
  then have ml: "m < length (heap s)" using wf by (auto simp: wf_zones_def zones_def)
  have loc: "storage_location (heap s ! m) = ''shelf''" using wl m by (simp add: wf_locations_def)
  have hm: "heap s' ! m = (heap s ! m)\<lparr>storage_location := ''cooler''\<rparr>" using ml by (simp add: s')
  have life: "spec_life_remaining (heap s' ! m) t =
                spec_life_remaining (heap s ! m) t + (t - stored_at (heap s ! m))"
    using c(1) loc unfolding hm by (simp add: spec_life_remaining_def spec_in_ideal_zone_def m_def)
  show ?thesis
    using i c first s' hm life unfolding m_def by (intro exI [of _ i]) auto
qed

lemma move_heater_effect:
  assumes wf: "wf_zones s" and wl: "wf_locations s"
    and run: "move_from_shelf_to_heater s t = (s', True)"
  shows "\<exists>i<length (shelf s).
           temperature (heap s ! (shelf s ! i)) = HOT \<and>
           (\<forall>j<i. temperature (heap s ! (shelf s ! j)) \<noteq> HOT) \<and>
           shelf s' = pop i (shelf s) \<and> heater s' = heater s @ [shelf s ! i] \<and>
           heap s' ! (shelf s ! i) = (heap s ! (shelf s ! i))\<lparr>storage_location := ''heater''\<rparr> \<and>
           spec_life_remaining (heap s' ! (shelf s ! i)) t =
             spec_life_remaining (heap s ! (shelf s ! i)) t + (t - stored_at (heap s ! (shelf s ! i)))"
proof (cases "first_index (\<lambda>r. temperature (heap s ! r) = HOT \<and> length (heater s) < 6) (shelf s) 0")
  case None
  with run show ?thesis by (simp add: move_from_shelf_to_heater_def)
next
  case (Some i)
  from first_index_0 [OF Some] have i: "i < length (shelf s)"
    and c: "temperature (heap s ! (shelf s ! i)) = HOT" "length (heater s) < 6"
    and first: "\<forall>j<i. \<not> (temperature (heap s ! (shelf s ! j)) = HOT \<and> length (heater s) < 6)"
    by auto
  define m where "m = shelf s ! i"
  have s': "heater s' = heater s @ [m]" "shelf s' = pop i (shelf s)"
    "heap s' = (heap s)[m := (heap s ! m)\<lparr>storage_location := ''heater''\<rparr>]"
    using run Some
    by (auto simp: move_from_shelf_to_heater_def Let_def set_storage_location_def log_action_def
        bump_moved_def m_def)
  have m: "m \<in> set (shelf s)" using i by (simp add: m_def)
  then have ml: "m < length (heap s)" using wf by (auto simp: wf_zones_def zones_def)
  have loc: "storage_location (heap s ! m) = ''shelf''" using wl m by (simp add: wf_locations_def)
  have hm: "heap s' ! m = (heap s ! m)\<lparr>storage_location := ''heater''\<rparr>" using ml by (simp add: s')
  have life: "spec_life_remaining (heap s' ! m) t =
                spec_life_remaining (heap s ! m) t + (t - stored_at (heap s ! m))"
    using c(1) loc unfolding hm by (simp add: spec_life_remaining_def spec_in_ideal_zone_def m_def)
  show ?thesis
    using i c first s' hm life unfolding m_def by (intro exI [of _ i]) auto
qed

section \<open>The claims\<close>

text \<open>
  C1 (the code departs from the claim). The claim: an order stored in its ideal zone is
  fresh at \<open>t\<close> iff \<open>t - stored_at < budget\<close>. \<^verbatim>\<open>is_fresh\<close> compares the zone name
  (\<^verbatim>\<open>"heater"\<close>) with the temperature value (\<^verbatim>\<open>"hot"\<close>); they are never equal, so the
  halved budget applies in the ideal zone too. A hot order of budget 10 placed at time 0
  is stored in the heater; at time 6 its age 6 is below its budget, the specification's
  model calls it fresh, and \<^verbatim>\<open>is_fresh\<close> answers no: a pickup at time 6 discards it.
\<close>

theorem ideal_zone_order_expires_at_half_budget:
  "orders one_hot ''o1'' = Some 0 \<and>
   temperature (heap one_hot ! 0) = HOT \<and> storage_location (heap one_hot ! 0) = ''heater'' \<and>
   freshness (heap one_hot ! 0) = 10 \<and> stored_at (heap one_hot ! 0) = 0 \<and>
   spec_in_ideal_zone (heap one_hot ! 0) \<and> spec_fresh (heap one_hot ! 0) 6 \<and>
   \<not> is_fresh (heap one_hot ! 0) 6 \<and>
   ledger_of ''o1'' (fst (pickup_order one_hot 6 ''o1'')) = [PLACE, DISCARD]"
  unfolding one_hot_def spec_fresh_def spec_life_remaining_def spec_in_ideal_zone_def ledger_of_def
  by code_simp

text \<open>
  C2 (the code departs from the claim). The claim: every admitted id has one PLACE and
  one terminating action, and a pickup after a capacity discard returns nothing and logs
  nothing. \<^verbatim>\<open>_discard_and_place\<close> pops the victim from the shelf but leaves it in the
  \<^verbatim>\<open>orders\<close> dictionary (\<^verbatim>\<open>cleanup_expired_orders\<close> and \<^verbatim>\<open>pickup_order\<close> delete the
  entry when they discard). In the scenario the thirteenth room order displaces
  \<open>r01\<close>; the later pickup of \<open>r01\<close> still finds it, returns it and logs PICKUP
  after its DISCARD.
\<close>

theorem discarded_victim_is_picked_up:
  "ledger_of ''r01'' after_thirteenth = [PLACE, DISCARD] \<and>
   ledger_of ''r01'' (fst late_pickup) = [PLACE, DISCARD, PICKUP] \<and>
   map_option id' (snd late_pickup) = Some ''r01''"
  unfolding late_pickup_def after_thirteenth_def shelf_full_def twelve_room_orders_def ledger_of_def
  by code_simp



text \<open>
  C4 (does not hold as stated). The claim: a move from the shelf to the ideal zone leaves the remaining
  life as it was, by resetting the stored-at time to a virtual value. The two move
  functions set the storage location and nothing else. The cold order \<open>c7\<close>, budget
  10, shelved at time 0, is moved to the cooler at time 2: its stored-at time is still 0,
  and its remaining life in the specification's model is 6 before the move and 8 after.
\<close>

theorem move_changes_remaining_life:
  "snd (move_from_shelf_to_cooler cooler_freed 2) = True \<and>
   shelf cooler_freed = [6] \<and> shelf after_move = [] \<and> cooler after_move = [1, 2, 3, 4, 5, 6] \<and>
   id' (heap cooler_freed ! 6) = ''c7'' \<and> temperature (heap cooler_freed ! 6) = COLD \<and>
   freshness (heap cooler_freed ! 6) = 10 \<and>
   storage_location (heap cooler_freed ! 6) = ''shelf'' \<and>
   storage_location (heap after_move ! 6) = ''cooler'' \<and>
   stored_at (heap cooler_freed ! 6) = 0 \<and> stored_at (heap after_move ! 6) = 0 \<and>
   spec_life_remaining (heap cooler_freed ! 6) 2 = 6 \<and>
   spec_life_remaining (heap after_move ! 6) 2 = 8 \<and>
   \<not> \<bar>spec_life_remaining (heap after_move ! 6) 2 - spec_life_remaining (heap cooler_freed ! 6) 2\<bar>
       \<le> 1 / 1000"
  unfolding after_move_def cooler_freed_def seven_cold_orders_def spec_life_remaining_def
    spec_in_ideal_zone_def
  by code_simp

text \<open>
  C4 as amended: a move from the shelf to the ideal zone takes the first shelf order of
  that temperature and changes only its storage location; its stored-at time, placed-at
  time and budget stay as they were, and no virtual stored-at time is computed. Its
  remaining life in the specification's model is therefore its budget minus its age
  after the move, against its budget minus twice its age before: it grows by the
  order's age at the move.
\<close>

theorem move_keeps_stored_at:
  assumes "reachable s"
  shows "(move_from_shelf_to_cooler s t = (s', True) \<longrightarrow>
          (\<exists>i<length (shelf s).
             temperature (heap s ! (shelf s ! i)) = COLD \<and>
             (\<forall>j<i. temperature (heap s ! (shelf s ! j)) \<noteq> COLD) \<and>
             shelf s' = pop i (shelf s) \<and> cooler s' = cooler s @ [shelf s ! i] \<and>
             heap s' ! (shelf s ! i) = (heap s ! (shelf s ! i))\<lparr>storage_location := ''cooler''\<rparr> \<and>
             spec_life_remaining (heap s' ! (shelf s ! i)) t =
               spec_life_remaining (heap s ! (shelf s ! i)) t +
               (t - stored_at (heap s ! (shelf s ! i))))) \<and>
         (move_from_shelf_to_heater s t = (s', True) \<longrightarrow>
          (\<exists>i<length (shelf s).
             temperature (heap s ! (shelf s ! i)) = HOT \<and>
             (\<forall>j<i. temperature (heap s ! (shelf s ! j)) \<noteq> HOT) \<and>
             shelf s' = pop i (shelf s) \<and> heater s' = heater s @ [shelf s ! i] \<and>
             heap s' ! (shelf s ! i) = (heap s ! (shelf s ! i))\<lparr>storage_location := ''heater''\<rparr> \<and>
             spec_life_remaining (heap s' ! (shelf s ! i)) t =
               spec_life_remaining (heap s ! (shelf s ! i)) t +
               (t - stored_at (heap s ! (shelf s ! i)))))"
  using move_cooler_effect [OF reachable_wf_zones [OF assms] reachable_wf_locations [OF assms]]
    move_heater_effect [OF reachable_wf_zones [OF assms] reachable_wf_locations [OF assms]]
  by blast

theorem move_keeps_stored_at_witness:
  "reachable cooler_freed \<and> move_from_shelf_to_cooler cooler_freed 2 = (after_move, True) \<and>
   shelf cooler_freed = [6] \<and>
   heap after_move ! 6 = (heap cooler_freed ! 6)\<lparr>storage_location := ''cooler''\<rparr> \<and>
   spec_life_remaining (heap after_move ! 6) 2 =
     spec_life_remaining (heap cooler_freed ! 6) 2 + (2 - stored_at (heap cooler_freed ! 6))"
  using move_keeps_stored_at [OF reachable_cooler_freed, of 2 after_move]
    reachable_cooler_freed cooler_freed_moves cooler_freed_shelf
  by auto

text \<open>
  C5 (the code departs from the claim). The claim: when an arriving order cannot go to
  its ideal zone and a shelf order could go to its own, \<^verbatim>\<open>place_order\<close> relocates the
  shelf order first; in S4 the shelved hot order is moved to the heater.
  \<^verbatim>\<open>_try_make_room_and_place\<close> has the relocation, but only under the condition that the
  arriving order's ideal zone has room, and it is called only when that zone is full
  (lemma \<open>place_order_never_moves\<close>). In S4 the eighth hot order takes the free
  heater slot itself and \<open>h7\<close> stays on the shelf; with a cold order on the shelf, a
  free cooler slot and a full heater, an arriving hot order is shelved and nothing moves.
\<close>

theorem no_relocation_on_placement:
  "length (heater heater_freed) = 5 \<and>
   map (\<lambda>r. id' (heap heater_freed ! r)) (shelf heater_freed) = [''h7''] \<and>
   map (\<lambda>r. id' (heap after_eighth_hot ! r)) (shelf after_eighth_hot) = [''h7''] \<and>
   ledger_of ''h7'' after_eighth_hot = [PLACE] \<and>
   map target (filter (\<lambda>a. order_id a = ''h8'') (actions after_eighth_hot)) = [''heater''] \<and>
   orders_moved (stats after_eighth_hot) = 0 \<and>
   length (cooler heater_filled) = 5 \<and> length (heater heater_filled) = 6 \<and>
   map (\<lambda>r. id' (heap heater_filled ! r)) (shelf heater_filled) = [''c7''] \<and>
   map (\<lambda>r. id' (heap after_seventh_hot ! r)) (shelf after_seventh_hot) = [''c7'', ''h7''] \<and>
   length (cooler after_seventh_hot) = 5 \<and>
   ledger_of ''c7'' after_seventh_hot = [PLACE] \<and>
   orders_moved (stats after_seventh_hot) = 0"
  unfolding after_eighth_hot_def heater_freed_def hot_overflow_def seven_hot_orders_def ledger_of_def
    after_seventh_hot_def heater_filled_def cooler_freed_def seven_cold_orders_def
  by code_simp

text \<open>
  C6 (the code departs from the claim). The claim: ledger timestamps never decrease in
  append order. \<^verbatim>\<open>place_order\<close> reads the clock on entry and stamps its PLACE entry with
  that reading, after \<^verbatim>\<open>_discard_and_place\<close> has stamped the DISCARD entry with a later
  reading. With the clock advancing from 1 to 4 during the thirteenth placement, the
  ledger ends with DISCARD at 4 followed by PLACE at 1.
\<close>

theorem place_after_discard_is_stamped_earlier:
  "map action_type (drop 12 (actions after_thirteenth)) = [DISCARD, PLACE] \<and>
   map timestamp (drop 12 (actions after_thirteenth)) = [4, 1] \<and>
   \<not> sorted (map timestamp (actions after_thirteenth))"
  unfolding after_thirteenth_def shelf_full_def twelve_room_orders_def
  by code_simp




text \<open>The exception is real: with a shelf full of twelve orders, one of budget 0.\<close>

lemma zero_budget_order_breaks_placement:
  "snd (place_order shelf_full_stale 1 2 3 4 ''r13'' ''Bread'' ROOM 100) = Inl ZeroDivisionError"
  unfolding shelf_full_stale_def twelve_room_orders_def by code_simp




text \<open>
  C9. A PICKUP entry is never recorded for an order whose remaining life, in the
  specification's freshness model for its zone, is not positive at the time of the
  pickup; the pickup of such an order records DISCARD, returns nothing and removes the
  order from its zone and from the index. This holds in every reachable state for every
  tracked order, as long as the clock has not gone back behind the order's stored-at
  time or the order's budget is not negative.
\<close>

theorem no_pickup_after_expiry:
  assumes "reachable s" and "orders s oid = Some r"
    and "stored_at (heap s ! r) \<le> now \<or> 0 \<le> freshness (heap s ! r)"
  shows "\<exists>a. actions (fst (pickup_order s now oid)) = actions s @ [a] \<and>
           order_id a = oid \<and> timestamp a = now \<and>
           (action_type a = PICKUP \<longrightarrow> 0 < spec_life_remaining (heap s ! r) now) \<and>
           (spec_life_remaining (heap s ! r) now \<le> 0 \<longrightarrow>
              action_type a = DISCARD \<and> snd (pickup_order s now oid) = None \<and>
              orders (fst (pickup_order s now oid)) oid = None \<and>
              r \<notin> set (zones (fst (pickup_order s now oid))))"
proof -
  have wl: "wf_locations s" using assms(1) by (rule reachable_wf_locations)
  from pickup_order_tracked [OF assms(2), of now] obtain ty where
    ty: "ty = PICKUP \<or> ty = DISCARD" "ty = PICKUP \<longleftrightarrow> is_fresh (heap s ! r) now"
    and a: "actions (fst (pickup_order s now oid)) =
       actions s @ [\<lparr>timestamp = now, order_id = oid, action_type = ty,
                     target = storage_location (heap s ! r),
                     details = (if ty = PICKUP then ''Picked up '' else ''Discarded expired '') @ name (heap s ! r)\<rparr>]"
    and res: "snd (pickup_order s now oid) = (if ty = PICKUP then Some (heap s ! r) else None)"
    and ord: "orders (fst (pickup_order s now oid)) = (orders s)(oid := None)"
    and zn: "zones (fst (pickup_order s now oid)) = zones (remove_order_from_storage s (heap s ! r))"
    by blast
  have fresh_life: "is_fresh (heap s ! r) now \<Longrightarrow> 0 < spec_life_remaining (heap s ! r) now"
  proof -
    assume "is_fresh (heap s ! r) now"
    then have h: "now - stored_at (heap s ! r) < real_of_int (freshness (heap s ! r)) / 2"
      using is_fresh_tracked [OF wl assms(2)] by simp
    have "0 \<le> real_of_int (freshness (heap s ! r))"
      using assms(3) h by (cases "0 \<le> freshness (heap s ! r)") auto
    then show ?thesis using h by (auto simp: spec_life_remaining_def)
  qed
  have gone: "r \<notin> set (zones (fst (pickup_order s now oid)))"
    unfolding zn using wl by (rule remove_order_from_storage_gone)
  show ?thesis
    using ty a res ord gone fresh_life
    by (intro exI [of _ "\<lparr>timestamp = now, order_id = oid, action_type = ty,
                     target = storage_location (heap s ! r),
                     details = (if ty = PICKUP then ''Picked up '' else ''Discarded expired '') @ name (heap s ! r)\<rparr>"])
       auto
qed

theorem no_pickup_after_expiry_witness:
  "reachable one_hot \<and> orders one_hot ''o1'' = Some 0 \<and> stored_at (heap one_hot ! 0) \<le> 12 \<and>
   spec_life_remaining (heap one_hot ! 0) 12 \<le> 0 \<and>
   action_type (last (actions (fst (pickup_order one_hot 12 ''o1'')))) = DISCARD \<and>
   snd (pickup_order one_hot 12 ''o1'') = None \<and>
   orders (fst (pickup_order one_hot 12 ''o1'')) ''o1'' = None"
proof -
  have tracked: "orders one_hot ''o1'' = Some 0" unfolding one_hot_def by code_simp
  have clock: "stored_at (heap one_hot ! 0) \<le> 12" unfolding one_hot_def by code_simp
  have dead: "spec_life_remaining (heap one_hot ! 0) 12 \<le> 0"
    unfolding one_hot_def spec_life_remaining_def spec_in_ideal_zone_def by code_simp
  show ?thesis
    using no_pickup_after_expiry [OF reachable_one_hot tracked disjI1 [OF clock]]
      reachable_one_hot tracked clock dead
    by auto
qed

text \<open>
  C10. A pickup of an id that is not in the tracking index returns nothing and leaves
  the whole state as it was: zones, index, ledger, counters and order objects.
\<close>

theorem pickup_unknown_id_changes_nothing:
  assumes "orders s oid = None"
  shows "pickup_order s now oid = (s, None)"
  using assms by (simp add: pickup_order_def)

theorem pickup_unknown_id_changes_nothing_witness:
  "orders after_thirteenth ''r99'' = None \<and>
   pickup_order after_thirteenth 7 ''r99'' = (after_thirteenth, None)"
proof -
  have absent: "orders after_thirteenth ''r99'' = None"
    unfolding after_thirteenth_def shelf_full_def twelve_room_orders_def by code_simp
  show ?thesis
    using absent pickup_unknown_id_changes_nothing [OF absent, of 7] by simp
qed

end
